theory Spec2Isabelle
  imports Complex_Main "HOL-Library.Sublist" "HOL-Library.AList"
begin

section \<open>The directed graph of digraph.py\<close>

text \<open>
  A Python dictionary is an association list in insertion order (assignment to an existing
  key keeps its place, a new key goes last), read with \<open>map_of\<close>. A Python set of
  neighbours is the list of its elements in the order in which the interpreter iterates
  over it; that order is not fixed by the language, so the theorems below hold for every
  such list. An exception is a value of type \<open>error\<close>.
\<close>

datatype error = KeyError | IndexError | ValueError string "int list"

record 'v digraph =
  tosets :: "('v \<times> 'v list) list"
  fromsets :: "('v \<times> 'v list) list"

definition empty_digraph :: "'v digraph" where
  "empty_digraph = \<lparr>tosets = [], fromsets = []\<rparr>"

text \<open>\<open>add_vertex\<close>: a vertex that is no key of \<open>_tosets\<close> gets an empty set in both
  dictionaries.\<close>

definition add_vertex :: "'v \<Rightarrow> 'v digraph \<Rightarrow> 'v digraph" where
  "add_vertex v G =
     (if map_of (tosets G) v = None
      then G\<lparr>tosets := AList.update v [] (tosets G),
             fromsets := AList.update v [] (fromsets G)\<rparr>
      else G)"

text \<open>\<open>add_edge\<close>: both end points are added first, then \<open>_tosets[e[0]].add(e[1])\<close> and
  \<open>_fromsets[e[1]].add(e[0])\<close>; each subscript raises KeyError on a missing key.\<close>

definition add_edge :: "'v \<times> 'v \<Rightarrow> 'v digraph \<Rightarrow> error + 'v digraph" where
  "add_edge e G =
     (let G1 = add_vertex (snd e) (add_vertex (fst e) G) in
      case map_of (tosets G1) (fst e) of
        None \<Rightarrow> Inl KeyError
      | Some ns \<Rightarrow>
          (let G2 = G1\<lparr>tosets := AList.update (fst e) (List.insert (snd e) ns) (tosets G1)\<rparr> in
           case map_of (fromsets G2) (snd e) of
             None \<Rightarrow> Inl KeyError
           | Some ms \<Rightarrow>
               Inr (G2\<lparr>fromsets := AList.update (snd e) (List.insert (fst e) ms) (fromsets G2)\<rparr>)))"

definition vertices :: "'v digraph \<Rightarrow> 'v set" where
  "vertices G = set (map fst (tosets G))"

definition edges :: "'v digraph \<Rightarrow> ('v \<times> 'v) set" where
  "edges G = {(v, w). \<exists>ns. map_of (tosets G) v = Some ns \<and> w \<in> set ns}"

definition num_edges :: "'v digraph \<Rightarrow> nat" where
  "num_edges G =
     fold (\<lambda>v m. m + (case map_of (tosets G) v of None \<Rightarrow> 0 | Some ns \<Rightarrow> length ns))
       (map fst (tosets G)) 0"

definition num_vertices :: "'v digraph \<Rightarrow> nat" where
  "num_vertices G = length (tosets G)"

definition adj_to :: "'v digraph \<Rightarrow> 'v \<Rightarrow> error + 'v list" where
  "adj_to G v = (case map_of (tosets G) v of None \<Rightarrow> Inl KeyError | Some ns \<Rightarrow> Inr ns)"

definition adj_from :: "'v digraph \<Rightarrow> 'v \<Rightarrow> error + 'v list" where
  "adj_from G v = (case map_of (fromsets G) v of None \<Rightarrow> Inl KeyError | Some ns \<Rightarrow> Inr ns)"

text \<open>The \<open>while i < len(path) - 1\<close> loop of \<open>is_path\<close>. It is entered with at least two
  vertices, so the subtraction does not go below zero.\<close>

function is_path_loop :: "'v digraph \<Rightarrow> 'v list \<Rightarrow> nat \<Rightarrow> error + bool" where
  "is_path_loop G path i =
     (if i < length path - 1
      then (case adj_to G (path ! i) of
              Inl e \<Rightarrow> Inl e
            | Inr ns \<Rightarrow>
                if path ! (i + 1) \<notin> set ns then Inr False
                else is_path_loop G path (i + 1))
      else Inr True)"
  by pat_completeness auto
termination
  by (relation "measure (\<lambda>(G, path, i). length path - i)") auto

definition is_path :: "'v digraph \<Rightarrow> 'v list \<Rightarrow> error + bool" where
  "is_path G path =
     (if length path = 0 then Inr False
      else if length path = 1 \<and> path ! 0 \<in> vertices G then Inr True
      else if length path = 1 \<and> path ! 0 \<notin> vertices G then Inr False
      else is_path_loop G path 0)"

text \<open>The sequence of \<open>add_vertex\<close> and \<open>add_edge\<close> calls that builds a graph.\<close>

datatype 'v op = AddVertex 'v | AddEdge "'v \<times> 'v"

fun apply_op :: "'v op \<Rightarrow> 'v digraph \<Rightarrow> error + 'v digraph" where
  "apply_op (AddVertex v) G = Inr (add_vertex v G)"
| "apply_op (AddEdge e) G = add_edge e G"

fun build :: "'v op list \<Rightarrow> 'v digraph \<Rightarrow> error + 'v digraph" where
  "build [] G = Inr G"
| "build (x # xs) G = (case apply_op x G of Inl e \<Rightarrow> Inl e | Inr G' \<Rightarrow> build xs G')"

text \<open>\<open>Digraph(edges)\<close>: the constructor adds the edges in order.\<close>

definition Digraph :: "('v \<times> 'v) list \<Rightarrow> error + 'v digraph" where
  "Digraph es = build (map AddEdge es) empty_digraph"

section \<open>Walk compression\<close>

definition lasttime :: "'v list \<Rightarrow> ('v \<rightharpoonup> nat)" where
  "lasttime walk = fold (\<lambda>(i, v) m. m(v \<mapsto> i)) (enumerate 0 walk) Map.empty"

lemma lasttime_Nil: "lasttime [] = Map.empty"
  by (simp add: lasttime_def)

lemma lasttime_snoc: "lasttime (xs @ [a]) = (lasttime xs)(a \<mapsto> length xs)"
  by (simp add: lasttime_def enumerate_append_eq)

lemma lasttime_Some:
  "lasttime xs x = Some j \<Longrightarrow>
     j < length xs \<and> xs ! j = x \<and> (\<forall>k. j < k \<longrightarrow> k < length xs \<longrightarrow> xs ! k \<noteq> x)"
proof (induction xs arbitrary: j rule: rev_induct)
  case Nil
  then show ?case by (simp add: lasttime_Nil)
next
  case (snoc a xs)
  show ?case
  proof (cases "x = a")
    case True
    with snoc.prems have "j = length xs" by (simp add: lasttime_snoc)
    with True show ?thesis by simp
  next
    case False
    with snoc.prems have "lasttime xs x = Some j" by (simp add: lasttime_snoc)
    from snoc.IH [OF this] False show ?thesis
      by (auto simp: nth_append less_Suc_eq)
  qed
qed

lemma lasttime_None: "(lasttime xs x = None) = (x \<notin> set xs)"
  by (induction xs rule: rev_induct) (auto simp: lasttime_Nil lasttime_snoc)

lemma lasttime_nth:
  assumes "i < length xs"
  shows "\<exists>j. lasttime xs (xs ! i) = Some j \<and> i \<le> j \<and> j < length xs \<and> xs ! j = xs ! i \<and>
           (\<forall>k. j < k \<longrightarrow> k < length xs \<longrightarrow> xs ! k \<noteq> xs ! i)"
proof -
  from assms have "xs ! i \<in> set xs" by simp
  then obtain j where j: "lasttime xs (xs ! i) = Some j"
    using lasttime_None [of xs "xs ! i"] by (cases "lasttime xs (xs ! i)") auto
  note p = lasttime_Some [OF j]
  have "i \<le> j"
  proof (rule ccontr)
    assume "\<not> i \<le> j"
    then have "j < i" by simp
    with p assms show False by blast
  qed
  with j p show ?thesis by blast
qed

lemma compress_loop_term:
  "i < length walk \<Longrightarrow> lasttime walk (walk ! i) = Some j \<Longrightarrow> length walk - Suc j < length walk - i"
  using lasttime_nth [of i walk] by auto

text \<open>The \<open>while (i < len(walk))\<close> loop of \<open>compress\<close>; \<open>lasttime[walk[i]]\<close> raises KeyError
  on a missing key.\<close>

function compress_loop :: "'v list \<Rightarrow> nat \<Rightarrow> 'v list \<Rightarrow> error + 'v list" where
  "compress_loop walk i rv =
     (if i < length walk
      then (case lasttime walk (walk ! i) of
              None \<Rightarrow> Inl KeyError
            | Some j \<Rightarrow> compress_loop walk (j + 1) (rv @ [walk ! i]))
      else Inr rv)"
  by pat_completeness auto
termination
  by (relation "measure (\<lambda>(walk, i, rv). length walk - i)") (auto simp: compress_loop_term)

definition compress :: "'v list \<Rightarrow> error + 'v list" where
  "compress walk = compress_loop walk 0 []"

declare compress_loop.simps [simp del]
declare is_path_loop.simps [simp del]

text \<open>An invariant of the loop holds of its result, and the loop raises nothing.\<close>

lemma compress_loop_inv:
  assumes "P i rv" and "i \<le> length walk"
    and step: "\<And>i rv j. P i rv \<Longrightarrow> i < length walk \<Longrightarrow> i \<le> j \<Longrightarrow> j < length walk \<Longrightarrow>
        walk ! j = walk ! i \<Longrightarrow> (\<forall>k. j < k \<longrightarrow> k < length walk \<longrightarrow> walk ! k \<noteq> walk ! i) \<Longrightarrow>
        P (j + 1) (rv @ [walk ! i])"
  shows "\<exists>r. compress_loop walk i rv = Inr r \<and> P (length walk) r"
  using assms(1,2)
proof (induction "length walk - i" arbitrary: i rv rule: less_induct)
  case less
  show ?case
  proof (cases "i < length walk")
    case True
    from lasttime_nth [OF True] obtain j where j: "lasttime walk (walk ! i) = Some j"
      "i \<le> j" "j < length walk" "walk ! j = walk ! i"
      "\<forall>k. j < k \<longrightarrow> k < length walk \<longrightarrow> walk ! k \<noteq> walk ! i" by blast
    have "P (j + 1) (rv @ [walk ! i])" using step [OF less.prems(1) True j(2-5)] .
    moreover have "j + 1 \<le> length walk" using j(3) by simp
    moreover have "length walk - (j + 1) < length walk - i" using j(2,3) by simp
    ultimately have "\<exists>r. compress_loop walk (j + 1) (rv @ [walk ! i]) = Inr r \<and> P (length walk) r"
      using less.hyps by blast
    then show ?thesis using True j(1) by (subst compress_loop.simps) simp
  next
    case False
    with less.prems have "i = length walk" by simp
    with less.prems show ?thesis by (subst compress_loop.simps) simp
  qed
qed

lemma drop_nth_notin:
  assumes "\<forall>k. j < k \<longrightarrow> k < length w \<longrightarrow> w ! k \<noteq> x"
  shows "x \<notin> set (drop (j + 1) w)"
proof
  assume "x \<in> set (drop (j + 1) w)"
  then obtain k where "k < length (drop (j + 1) w)" "drop (j + 1) w ! k = x"
    by (auto simp: in_set_conv_nth)
  then have "j + 1 + k < length w" "w ! (j + 1 + k) = x" by auto
  moreover have "j < j + 1 + k" by simp
  ultimately show False using assms by blast
qed

lemma compress_distinct:
  "\<exists>r. compress w = Inr r \<and> distinct r \<and> length r \<le> length w"
proof -
  let ?P = "\<lambda>i rv. distinct rv \<and> set rv \<inter> set (drop i w) = {} \<and> length rv \<le> i"
  have "\<exists>r. compress_loop w 0 [] = Inr r \<and> ?P (length w) r"
  proof (rule compress_loop_inv [where P = ?P])
    show "?P 0 []" by simp
    show "0 \<le> length w" by simp
  next
    fix i rv j
    assume P: "?P i rv" and i: "i < length w" and ij: "i \<le> j" and j: "j < length w"
      and e: "w ! j = w ! i" and l: "\<forall>k. j < k \<longrightarrow> k < length w \<longrightarrow> w ! k \<noteq> w ! i"
    have "w ! i \<in> set (drop i w)" using i by (metis Cons_nth_drop_Suc list.set_intros(1))
    with P have n: "w ! i \<notin> set rv" by blast
    have "i \<le> j + 1" using ij by simp
    then have "set (drop (j + 1) w) \<subseteq> set (drop i w)" by (rule set_drop_subset_set_drop)
    with P have a: "set rv \<inter> set (drop (j + 1) w) = {}" by blast
    have b: "w ! i \<notin> set (drop (j + 1) w)" using drop_nth_notin [OF l] .
    have c: "distinct (rv @ [w ! i])" using P n by simp
    have d: "length (rv @ [w ! i]) \<le> j + 1" using P ij by simp
    have "set (rv @ [w ! i]) \<inter> set (drop (j + 1) w) = {}" using a b by simp
    with c d show "?P (j + 1) (rv @ [w ! i])" by blast
  qed
  then show ?thesis by (auto simp: compress_def)
qed

lemma compress_distinct_id:
  assumes "distinct w"
  shows "compress w = Inr w"
proof -
  let ?P = "\<lambda>i rv. rv = take i w"
  have "\<exists>r. compress_loop w 0 [] = Inr r \<and> ?P (length w) r"
  proof (rule compress_loop_inv [where P = ?P])
    show "?P 0 []" by simp
    show "0 \<le> length w" by simp
  next
    fix i rv j
    assume P: "?P i rv" and i: "i < length w" and ij: "i \<le> j" and j: "j < length w"
      and e: "w ! j = w ! i"
    from assms i j e have "j = i" by (simp add: nth_eq_iff_index_eq)
    with P i show "?P (j + 1) (rv @ [w ! i])" by (simp add: take_Suc_conv_app_nth)
  qed
  then show ?thesis by (auto simp: compress_def)
qed

text \<open>
  Claim C6. For every vertex sequence \<open>w\<close>, \<open>compress w\<close> returns a sequence (it raises
  nothing) in which no vertex occurs twice, which is no longer than \<open>w\<close>, and which
  \<open>compress\<close> returns unchanged.
\<close>

theorem compress_distinct_short_idempotent:
  "\<exists>r. compress w = Inr r \<and> distinct r \<and> length r \<le> length w \<and> compress r = Inr r"
  using compress_distinct [of w] compress_distinct_id by blast

section \<open>What \<open>is_path\<close> computes\<close>

lemma adj_to_edges: "(adj_to G v = Inr ns \<and> w \<in> set ns) \<Longrightarrow> (v, w) \<in> edges G"
  by (auto simp: adj_to_def edges_def split: option.splits)

lemma edges_adj_to: "(v, w) \<in> edges G \<Longrightarrow> \<exists>ns. adj_to G v = Inr ns \<and> w \<in> set ns"
  by (auto simp: adj_to_def edges_def)

lemma is_path_loop_True:
  "(is_path_loop G p i = Inr True) =
     (\<forall>k. i \<le> k \<longrightarrow> k + 1 < length p \<longrightarrow> (p ! k, p ! (k + 1)) \<in> edges G)"
proof (induction G p i rule: is_path_loop.induct)
  case (1 G path i)
  show ?case
  proof (cases "i < length path - 1")
    case False
    then show ?thesis by (subst is_path_loop.simps) auto
  next
    case True
    show ?thesis
    proof (cases "adj_to G (path ! i)")
      case (Inl e)
      then have "(path ! i, path ! (i + 1)) \<notin> edges G" by (auto dest: edges_adj_to)
      moreover have "i + 1 < length path" using True by simp
      ultimately have "\<not> (\<forall>k. i \<le> k \<longrightarrow> k + 1 < length path \<longrightarrow> (path ! k, path ! (k + 1)) \<in> edges G)"
        by blast
      then show ?thesis using True Inl by (subst is_path_loop.simps) simp
    next
      case (Inr ns)
      show ?thesis
      proof (cases "path ! (i + 1) \<in> set ns")
        case False
        then have "(path ! i, path ! (i + 1)) \<notin> edges G" using Inr by (auto dest: edges_adj_to)
        moreover have "i + 1 < length path" using True by simp
        ultimately have "\<not> (\<forall>k. i \<le> k \<longrightarrow> k + 1 < length path \<longrightarrow> (path ! k, path ! (k + 1)) \<in> edges G)"
          by blast
        then show ?thesis using True Inr False by (subst is_path_loop.simps) simp
      next
        case T2: True
        have e: "(path ! i, path ! (i + 1)) \<in> edges G" using Inr T2 by (auto intro: adj_to_edges)
        have "is_path_loop G path i = is_path_loop G path (i + 1)"
          using True Inr T2 by (subst is_path_loop.simps) simp
        also have "(\<dots> = Inr True) =
          (\<forall>k. i + 1 \<le> k \<longrightarrow> k + 1 < length path \<longrightarrow> (path ! k, path ! (k + 1)) \<in> edges G)"
          using "1.IH" [OF True Inr] T2 by simp
        also have "\<dots> = (\<forall>k. i \<le> k \<longrightarrow> k + 1 < length path \<longrightarrow> (path ! k, path ! (k + 1)) \<in> edges G)"
          using e by (metis Suc_eq_plus1 Suc_leI le_neq_implies_less Suc_leD)
        finally show ?thesis .
      qed
    qed
  qed
qed

text \<open>A valid path, in the words of the specification: not empty, a single vertex is a
  vertex of the graph, every consecutive pair is an edge.\<close>

definition valid_path :: "'v digraph \<Rightarrow> 'v list \<Rightarrow> bool" where
  "valid_path G p =
     (p \<noteq> [] \<and> (length p = 1 \<longrightarrow> p ! 0 \<in> vertices G) \<and>
      (\<forall>k. k + 1 < length p \<longrightarrow> (p ! k, p ! (k + 1)) \<in> edges G))"

lemma is_path_True: "(is_path G p = Inr True) = valid_path G p"
proof (cases "length p \<le> 1")
  case True
  then have "length p = 0 \<or> length p = 1" by linarith
  then show ?thesis by (auto simp: is_path_def valid_path_def)
next
  case False
  then have "length p \<noteq> 0" "length p \<noteq> 1" by linarith+
  then have "is_path G p = is_path_loop G p 0" unfolding is_path_def by simp
  moreover have "p \<noteq> []" using False by (cases p) simp_all
  ultimately show ?thesis using False by (simp add: is_path_loop_True valid_path_def)
qed

text \<open>A valid walk, in the words of claim C7: every vertex is a vertex of the graph and
  every consecutive pair is a forward edge.\<close>

definition valid_walk :: "'v digraph \<Rightarrow> 'v list \<Rightarrow> bool" where
  "valid_walk G w =
     (set w \<subseteq> vertices G \<and> (\<forall>k. k + 1 < length w \<longrightarrow> (w ! k, w ! (k + 1)) \<in> edges G))"

lemma subseq_take_snoc:
  assumes "subseq rv (take i w)" "i \<le> j" "j < length w"
  shows "subseq (rv @ [w ! j]) (take (j + 1) w)"
proof -
  have "take j w = take i w @ drop i (take j w)"
    using assms(2) by (metis append_take_drop_id min.absorb2 take_take min.commute)
  then have "subseq (take i w) (take j w)" by (metis subseq_rev_drop_many list_emb_append2 subseq_order.order_refl)
  with assms(1) have "subseq rv (take j w)" by (rule subseq_order.trans)
  then have "subseq (rv @ [w ! j]) (take j w @ [w ! j])"
    by (simp add: list_emb_append_mono)
  then show ?thesis using assms(3) by (simp add: take_Suc_conv_app_nth)
qed

lemma compress_walk:
  assumes ne: "w \<noteq> []" and wk: "valid_walk G w"
  shows "\<exists>r. compress w = Inr r \<and> r \<noteq> [] \<and> subseq r w \<and> valid_path G r \<and>
           hd r = hd w \<and> last r = last w"
proof -
  let ?P = "\<lambda>i rv. (i = 0 \<longrightarrow> rv = []) \<and>
      (0 < i \<longrightarrow> rv \<noteq> [] \<and> hd rv = w ! 0 \<and> last rv = w ! (i - 1)) \<and>
      subseq rv (take i w) \<and>
      (\<forall>k. k + 1 < length rv \<longrightarrow> (rv ! k, rv ! (k + 1)) \<in> edges G)"
  have "\<exists>r. compress_loop w 0 [] = Inr r \<and> ?P (length w) r"
  proof (rule compress_loop_inv [where P = ?P])
    show "?P 0 []" by simp
    show "0 \<le> length w" by simp
  next
    fix i rv j
    assume P: "?P i rv" and i: "i < length w" and ij: "i \<le> j" and j: "j < length w"
      and e: "w ! j = w ! i"
    let ?rv = "rv @ [w ! i]"
    have a: "hd ?rv = w ! 0" using P by (cases "i = 0") auto
    have b: "last ?rv = w ! (j + 1 - 1)" using e by simp
    have c: "subseq ?rv (take (j + 1) w)" using subseq_take_snoc [of rv i w j] P ij j e by simp
    have d: "(?rv ! k, ?rv ! (k + 1)) \<in> edges G" if k: "k + 1 < length ?rv" for k
    proof (cases "k + 1 < length rv")
      case True
      with P show ?thesis by (simp add: nth_append)
    next
      case False
      with k have kl: "k + 1 = length rv" by simp
      then have rn: "rv \<noteq> []" by auto
      with P have i0: "0 < i" by auto
      with P have "last rv = w ! (i - 1)" by simp
      moreover have "length rv - 1 = k" using kl by simp
      then have "last rv = rv ! k" using rn by (simp add: last_conv_nth)
      moreover have "(w ! (i - 1), w ! i) \<in> edges G"
        using wk i i0 by (auto simp: valid_walk_def dest: spec [where x = "i - 1"])
      ultimately show ?thesis using kl by (simp add: nth_append)
    qed
    show "?P (j + 1) ?rv" using a b c d by simp
  qed
  then obtain r where r: "compress w = Inr r" "?P (length w) r" by (auto simp: compress_def)
  from ne have l: "0 < length w" by simp
  with r(2) have r1: "r \<noteq> []" "hd r = w ! 0" "last r = w ! (length w - 1)" "subseq r w"
    "\<forall>k. k + 1 < length r \<longrightarrow> (r ! k, r ! (k + 1)) \<in> edges G" by simp_all
  have "set r \<subseteq> set w"
  proof
    fix x assume "x \<in> set r"
    with r1(4) show "x \<in> set w" by (auto elim: list_emb_set)
  qed
  with wk have "set r \<subseteq> vertices G" by (auto simp: valid_walk_def)
  moreover have "r ! 0 \<in> set r" using r1(1) by simp
  ultimately have "length r = 1 \<longrightarrow> r ! 0 \<in> vertices G" by blast
  with r1 have "valid_path G r" by (simp add: valid_path_def)
  moreover have "hd w = w ! 0" "last w = w ! (length w - 1)" using ne by (simp_all add: hd_conv_nth last_conv_nth)
  ultimately show ?thesis using r(1) r1 by simp
qed

text \<open>
  Claim C7. For every graph \<open>G\<close> and every non-empty sequence \<open>w\<close> that is a valid walk in
  \<open>G\<close>, \<open>compress w\<close> returns a subsequence of \<open>w\<close> for which \<open>is_path\<close> returns
  True, which begins with the first vertex of \<open>w\<close> and ends with its last vertex.
\<close>

theorem compress_walk_is_path:
  assumes "w \<noteq> []" and "valid_walk G w"
  shows "\<exists>r. compress w = Inr r \<and> subseq r w \<and> is_path G r = Inr True \<and>
           r \<noteq> [] \<and> hd r = hd w \<and> last r = last w"
  using compress_walk [OF assms] by (auto simp: is_path_True)

text \<open>The circular graph on the vertices 1, 2 and 3.\<close>

definition G3 :: "int digraph" where
  "G3 = \<lparr>tosets = [(1, [2]), (2, [3]), (3, [1])], fromsets = [(1, [3]), (2, [1]), (3, [2])]\<rparr>"

lemma G3_build: "Digraph [(1, 2), (2, 3), (3, 1::int)] = Inr G3"
  by (simp add: Digraph_def G3_def add_edge_def add_vertex_def empty_digraph_def)

lemma G3_walk: "valid_walk G3 [1, 2, 3, 1, 2]"
  by (auto simp: valid_walk_def G3_def vertices_def edges_def less_Suc_eq numeral_eq_Suc)

lemma compress_example: "compress [1, 2, 3, 1, 2::int] = Inr [1, 2]"
  by code_simp

theorem compress_walk_is_path_witness:
  "[1, 2, 3, 1, 2::int] \<noteq> [] \<and> valid_walk G3 [1, 2, 3, 1, 2] \<and>
   compress [1, 2, 3, 1, 2::int] = Inr [1, 2] \<and> subseq [1, 2] [1, 2, 3, 1, 2::int] \<and>
   is_path G3 [1, 2] = Inr True"
  using compress_walk_is_path [OF _ G3_walk] compress_example G3_walk by auto

section \<open>The two dictionaries are kept in lockstep\<close>

definition lockstep :: "'v digraph \<Rightarrow> bool" where
  "lockstep G =
     (dom (map_of (tosets G)) = dom (map_of (fromsets G)) \<and>
      (\<forall>v w. (\<exists>ns. map_of (tosets G) v = Some ns \<and> w \<in> set ns) =
             (\<exists>ms. map_of (fromsets G) w = Some ms \<and> v \<in> set ms)))"

lemma tosets_add_vertex:
  "map_of (tosets (add_vertex v G)) =
     (if map_of (tosets G) v = None then (map_of (tosets G))(v \<mapsto> []) else map_of (tosets G))"
  by (simp add: add_vertex_def update_conv')

lemma fromsets_add_vertex:
  "map_of (fromsets (add_vertex v G)) =
     (if map_of (tosets G) v = None then (map_of (fromsets G))(v \<mapsto> []) else map_of (fromsets G))"
  by (simp add: add_vertex_def update_conv')

lemma lockstep_empty: "lockstep empty_digraph"
  by (simp add: lockstep_def empty_digraph_def)

lemma lockstep_add_vertex:
  assumes "lockstep G"
  shows "lockstep (add_vertex v G)"
proof (cases "map_of (tosets G) v = None")
  case False
  then have "add_vertex v G = G" unfolding add_vertex_def by (simp only: if_False)
  then show ?thesis using assms by simp
next
  case True
  let ?T = "map_of (tosets G)" and ?F = "map_of (fromsets G)"
  from assms have d: "dom ?T = dom ?F"
    and e: "\<And>x y. (\<exists>ns. ?T x = Some ns \<and> y \<in> set ns) = (\<exists>ms. ?F y = Some ms \<and> x \<in> set ms)"
    by (simp_all add: lockstep_def)
  from True d have Fv: "?F v = None" by (metis domIff)
  have n1: "\<not> (\<exists>ns. ?T x = Some ns \<and> v \<in> set ns)" for x using e [of x v] Fv by simp
  have n2: "\<not> (\<exists>ms. ?F y = Some ms \<and> v \<in> set ms)" for y using e [of v y] True by simp
  show ?thesis
    unfolding lockstep_def tosets_add_vertex fromsets_add_vertex
    using True d e n1 n2 by auto
qed

lemma add_vertex_dom: "v \<in> dom (map_of (tosets (add_vertex v G)))"
  by (auto simp: tosets_add_vertex)

lemma add_vertex_dom_mono: "dom (map_of (tosets G)) \<subseteq> dom (map_of (tosets (add_vertex v G)))"
  by (auto simp: tosets_add_vertex)

lemma lockstep_add_edge:
  assumes "lockstep G"
  shows "\<exists>G'. add_edge e G = Inr G' \<and> lockstep G'"
proof -
  obtain a b where e: "e = (a, b)" by (cases e)
  let ?G1 = "add_vertex b (add_vertex a G)"
  let ?T = "map_of (tosets ?G1)" and ?F = "map_of (fromsets ?G1)"
  have l1: "lockstep ?G1" using assms by (intro lockstep_add_vertex)
  then have d: "dom ?T = dom ?F"
    and q: "\<And>x y. (\<exists>ns. ?T x = Some ns \<and> y \<in> set ns) = (\<exists>ms. ?F y = Some ms \<and> x \<in> set ms)"
    by (simp_all add: lockstep_def)
  have "a \<in> dom ?T" using add_vertex_dom [of a G] add_vertex_dom_mono [of "add_vertex a G" b] by blast
  then obtain ns where ns: "?T a = Some ns" by blast
  have "b \<in> dom ?F" using add_vertex_dom [of b "add_vertex a G"] d by simp
  then obtain ms where ms: "?F b = Some ms" by blast
  let ?G' = "?G1\<lparr>tosets := AList.update a (List.insert b ns) (tosets ?G1),
                  fromsets := AList.update b (List.insert a ms) (fromsets ?G1)\<rparr>"
  have r: "add_edge e G = Inr ?G'"
    using ns ms by (simp add: add_edge_def e Let_def)
  have T': "map_of (tosets ?G') = ?T(a \<mapsto> List.insert b ns)" by (simp add: update_conv')
  have F': "map_of (fromsets ?G') = ?F(b \<mapsto> List.insert a ms)" by (simp add: update_conv')
  have "dom (map_of (tosets ?G')) = dom (map_of (fromsets ?G'))"
    unfolding T' F' using d ns ms by auto
  moreover have "(\<exists>ns'. map_of (tosets ?G') x = Some ns' \<and> y \<in> set ns') =
                 (\<exists>ms'. map_of (fromsets ?G') y = Some ms' \<and> x \<in> set ms')" for x y
    unfolding T' F' using q [of x y] ns ms by (cases "x = a"; cases "y = b") auto
  ultimately have "lockstep ?G'" unfolding lockstep_def by blast
  with r show ?thesis by blast
qed

lemma lockstep_build:
  "lockstep G \<Longrightarrow> \<exists>G'. build ops G = Inr G' \<and> lockstep G'"
proof (induction ops arbitrary: G)
  case Nil
  then show ?case by simp
next
  case (Cons x ops)
  show ?case
  proof (cases x)
    case (AddVertex v)
    with Cons.IH [OF lockstep_add_vertex [OF Cons.prems, of v]] show ?thesis by simp
  next
    case (AddEdge e)
    from lockstep_add_edge [OF Cons.prems, of e] obtain G1 where "add_edge e G = Inr G1" "lockstep G1"
      by blast
    with Cons.IH [of G1] AddEdge show ?thesis by simp
  qed
qed

text \<open>
  Claim C5. Every sequence of \<open>add_vertex\<close> and \<open>add_edge\<close> calls on the empty graph
  succeeds, and in the graph it reaches \<open>w\<close> is in \<open>_tosets[v]\<close> if and only if \<open>v\<close> is in
  \<open>_fromsets[w]\<close>, and the two dictionaries have the same keys.
\<close>

theorem build_lockstep:
  "\<exists>G. build ops empty_digraph = Inr G \<and>
     (\<forall>v w. (\<exists>ns. map_of (tosets G) v = Some ns \<and> w \<in> set ns) =
            (\<exists>ms. map_of (fromsets G) w = Some ms \<and> v \<in> set ms)) \<and>
     fst ` set (tosets G) = fst ` set (fromsets G)"
  using lockstep_build [OF lockstep_empty, of ops]
  by (auto simp: lockstep_def dom_map_of_conv_image_fst)

theorem build_lockstep_witness:
  "build [AddVertex (1::int), AddEdge (1, 2)] empty_digraph =
     Inr \<lparr>tosets = [(1, [2]), (2, [])], fromsets = [(1, []), (2, [1])]\<rparr> \<and>
   fst ` set [(1::int, [2::int]), (2, [])] = fst ` set [(1::int, []), (2, [1::int])]"
  using build_lockstep [of "[AddVertex (1::int), AddEdge (1, 2)]"]
  by (simp add: add_edge_def add_vertex_def empty_digraph_def)

section \<open>Breadth-first shortest path\<close>

text \<open>The body of \<open>for adj in G.adj_to(vertex)\<close>: a neighbour that is not in \<open>visited\<close> is
  appended to \<open>visited\<close>, and the path extended by it is appended to the queue.\<close>

definition visit :: "'v list \<Rightarrow> 'v \<Rightarrow> 'v list list \<times> 'v list \<Rightarrow> 'v list list \<times> 'v list" where
  "visit path adj = (\<lambda>(queue, visited).
     if adj \<in> set visited then (queue, visited)
     else (queue @ [path @ [adj]], visited @ [adj]))"

text \<open>All vertices that occur in some set of neighbours.\<close>

definition targets :: "'v digraph \<Rightarrow> 'v set" where
  "targets G = (\<Union>(v, ns) \<in> set (tosets G). set ns)"

lemma finite_targets: "finite (targets G)"
  by (auto simp: targets_def)

lemma adj_to_targets: "adj_to G v = Inr ns \<Longrightarrow> set ns \<subseteq> targets G"
  by (auto simp: adj_to_def targets_def split: option.splits dest!: map_of_SomeD)

lemma visit_measure:
  assumes "set ns \<subseteq> U" "finite U"
  shows "length (fst (fold (visit path) ns (q, vis))) + card (U - set (snd (fold (visit path) ns (q, vis))))
         = length q + card (U - set vis)"
  using assms(1)
proof (induction ns arbitrary: q vis)
  case Nil
  then show ?case by simp
next
  case (Cons a ns)
  show ?case
  proof (cases "a \<in> set vis")
    case True
    then have "visit path a (q, vis) = (q, vis)" by (simp add: visit_def)
    with Cons show ?thesis by simp
  next
    case False
    then have v: "visit path a (q, vis) = (q @ [path @ [a]], vis @ [a])" by (simp add: visit_def)
    have "a \<in> U - set vis" using False Cons.prems by simp
    moreover have "U - set (vis @ [a]) = (U - set vis) - {a}" by auto
    moreover have "finite (U - set vis)" using assms(2) by simp
    ultimately have "card (U - set (vis @ [a])) + 1 = card (U - set vis)"
      using card.remove [of "U - set vis" a] by simp
    with Cons.IH [of "q @ [path @ [a]]" "vis @ [a]"] Cons.prems v show ?thesis by simp
  qed
qed

lemma visit_measure_less:
  assumes "adj_to G v = Inr ns" "(q', vis') = fold (visit path) ns (q, vis)"
  shows "length q' + card (targets G - set vis') < Suc (length q + card (targets G - set vis))"
  using visit_measure [OF adj_to_targets [OF assms(1)] finite_targets, of path q vis] assms(2) [symmetric]
  by simp

text \<open>The \<open>while queue\<close> loop. \<open>path[len(path) - 1]\<close> raises IndexError on an empty path and
  \<open>G.adj_to(vertex)\<close> raises KeyError on a vertex that is no key. The last argument records
  the vertices whose neighbours the \<open>for\<close> loop has iterated over, in order; the result of
  the loop is paired with it.\<close>

function bfs_loop ::
  "'v digraph \<Rightarrow> 'v \<Rightarrow> 'v list list \<Rightarrow> 'v list \<Rightarrow> 'v list \<Rightarrow> (error + 'v list option) \<times> 'v list"
where
  "bfs_loop G dest queue visited expanded =
     (case queue of
        [] \<Rightarrow> (Inr None, expanded)
      | path # queue' \<Rightarrow>
          if path = [] then (Inl IndexError, expanded)
          else let vertex = last path in
            if vertex = dest then (Inr (Some path), expanded)
            else (case adj_to G vertex of
                    Inl e \<Rightarrow> (Inl e, expanded)
                  | Inr ns \<Rightarrow>
                      (case fold (visit path) ns (queue', visited) of
                         (queue'', visited') \<Rightarrow>
                           bfs_loop G dest queue'' visited' (expanded @ [vertex]))))"
  by pat_completeness auto
termination
proof (relation "measure (\<lambda>(G, dest, queue, visited, expanded).
                   length queue + card (targets G - set visited))", goal_cases)
  case 1
  show ?case by simp
next
  case prems: 2
  show ?case using prems by (simp add: visit_measure_less)
qed

declare bfs_loop.simps [simp del]

text \<open>\<open>shortest_path\<close> returns None when an end point is no vertex of the graph, and also when
  the queue runs empty.\<close>

definition shortest_path_run ::
  "'v digraph \<Rightarrow> 'v \<Rightarrow> 'v \<Rightarrow> (error + 'v list option) \<times> 'v list" where
  "shortest_path_run G source dest =
     (if source \<notin> vertices G \<or> dest \<notin> vertices G then (Inr None, [])
      else bfs_loop G dest [[source]] [] [])"

definition shortest_path :: "'v digraph \<Rightarrow> 'v \<Rightarrow> 'v \<Rightarrow> error + 'v list option" where
  "shortest_path G source dest = fst (shortest_path_run G source dest)"

definition expansions :: "'v digraph \<Rightarrow> 'v \<Rightarrow> 'v \<Rightarrow> 'v list" where
  "expansions G source dest = snd (shortest_path_run G source dest)"


section \<open>Where the code leaves its documented behaviour\<close>

text \<open>The graph \<open>Digraph([(1, 2)])\<close>.\<close>

definition G12 :: "int digraph" where
  "G12 = \<lparr>tosets = [(1, [2]), (2, [])], fromsets = [(1, []), (2, [1])]\<rparr>"

lemma G12_build: "Digraph [(1, 2::int)] = Inr G12"
  by (simp add: Digraph_def G12_def add_edge_def add_vertex_def empty_digraph_def)

text \<open>
  Claim C4 says that \<open>is_path\<close> returns False, and raises nothing, on every sequence that
  contains a vertex absent from the graph. The code checks membership of a single vertex
  only; on a longer sequence it subscripts \<open>_tosets\<close> with each vertex but the last. On the
  graph with the one edge \<open>(1, 2)\<close> and the sequence \<open>[0, 1]\<close>, whose first vertex is absent,
  \<open>is_path\<close> raises KeyError.
\<close>

theorem is_path_absent_first_vertex_raises: "is_path G12 [0, 1] = Inl KeyError"
  by (simp add: is_path_def is_path_loop.simps adj_to_def G12_def)

theorem is_path_absent_first_vertex_raises_witness: "is_path G12 [0, 1] \<noteq> Inr False"
  using is_path_absent_first_vertex_raises by simp

text \<open>The graph built by \<open>add_edge((1, 2))\<close>, \<open>add_edge((2, 1))\<close>, \<open>add_vertex(3)\<close>: a cycle
  through 1 and 2, and the isolated vertex 3.\<close>

definition G_cycle :: "int digraph" where
  "G_cycle = \<lparr>tosets = [(1, [2]), (2, [1]), (3, [])], fromsets = [(1, [2]), (2, [1]), (3, [])]\<rparr>"

lemma G_cycle_build: "build [AddEdge (1, 2), AddEdge (2, 1), AddVertex (3::int)] empty_digraph = Inr G_cycle"
  by (simp add: G_cycle_def add_edge_def add_vertex_def empty_digraph_def)

text \<open>
  Claim C9 says that \<open>shortest_path\<close> expands every vertex, the source included, at most
  once. The source is put on the queue without being appended to \<open>visited\<close>, so a cycle
  back to the source puts it on the queue a second time. On the graph above, from 1 to 3,
  the \<open>for\<close> loop runs for the vertices 1, 2 and 1 again, and the result is None.
\<close>

theorem shortest_path_expands_source_twice:
  "shortest_path_run G_cycle 1 3 = (Inr None, [1, 2, 1])"
  by (simp add: shortest_path_run_def G_cycle_def vertices_def bfs_loop.simps adj_to_def visit_def)

theorem shortest_path_expands_source_twice_witness:
  "expansions G_cycle 1 3 = [1, 2, 1] \<and> \<not> distinct (expansions G_cycle 1 3)"
  using shortest_path_expands_source_twice by (simp add: expansions_def)

section \<open>Least-cost path\<close>

text \<open>
  \<open>todo\<close> is a dictionary from vertices to costs, \<open>visited\<close> a set that is only added to
  and tested, \<open>parent\<close> a dictionary that is only assigned to and subscripted. Costs are
  real numbers. The last component of the state records the edges the cost function has
  been called with, in order.
\<close>

type_synonym 'v todo = "('v \<times> real) list"
type_synonym 'v calls = "('v \<times> 'v) list"

text \<open>\<open>min(todo.items(), key=lambda x: x[1])\<close>: the first item of least cost.\<close>

definition min_item :: "'v \<times> real \<Rightarrow> ('v \<times> real) list \<Rightarrow> 'v \<times> real" where
  "min_item x xs = fold (\<lambda>y best. if snd y < snd best then y else best) xs x"

text \<open>The body of \<open>for n in G.adj_to(cur)\<close>. The cost function is called once where \<open>n\<close> is
  not in \<open>todo\<close> or the new cost is not lower, and twice where \<open>todo[n]\<close> is lowered.\<close>

definition relax ::
  "('v \<times> 'v \<Rightarrow> real) \<Rightarrow> 'v set \<Rightarrow> 'v \<Rightarrow> real \<Rightarrow> 'v \<Rightarrow>
   'v todo \<times> ('v \<rightharpoonup> 'v) \<times> 'v calls \<Rightarrow> 'v todo \<times> ('v \<rightharpoonup> 'v) \<times> 'v calls" where
  "relax cost visited cur c n = (\<lambda>(todo, parent, calls).
     if n \<in> visited then (todo, parent, calls)
     else (case map_of todo n of
             None \<Rightarrow>
               (AList.update n (c + cost (cur, n)) todo, parent(n \<mapsto> cur), calls @ [(cur, n)])
           | Some d \<Rightarrow>
               if c + cost (cur, n) < d
               then (AList.update n (c + cost (cur, n)) todo, parent(n \<mapsto> cur),
                     calls @ [(cur, n), (cur, n)])
               else (todo, parent, calls @ [(cur, n)])))"

lemma keys_update: "fst ` set (AList.update k v al) = insert k (fst ` set al)"
  by (induction al) auto

lemma keys_delete: "fst ` set (AList.delete k al) = fst ` set al - {k}"
  by (induction al) auto

lemma relax_keys:
  "fst ` set (fst (fold (relax cost visited cur c) ns (todo, parent, calls)))
     \<subseteq> fst ` set todo \<union> (set ns - visited)"
proof (induction ns arbitrary: todo parent calls)
  case Nil
  then show ?case by simp
next
  case (Cons n ns)
  obtain t p k where r: "relax cost visited cur c n (todo, parent, calls) = (t, p, k)"
    using prod_cases3 by blast
  have "t = todo \<or> (n \<notin> visited \<and> (\<exists>d. t = AList.update n d todo))"
    using r by (auto simp: relax_def split: if_splits option.splits)
  then have "fst ` set t \<subseteq> fst ` set todo \<union> ({n} - visited)"
  proof
    assume "t = todo" then show ?thesis by simp
  next
    assume "n \<notin> visited \<and> (\<exists>d. t = AList.update n d todo)"
    then obtain d where nv: "n \<notin> visited" and t: "t = AList.update n d todo" by blast
    have "fst ` set t = insert n (fst ` set todo)" unfolding t by (rule keys_update)
    with nv show ?thesis by simp
  qed
  note tk = this
  have f: "fold (relax cost visited cur c) (n # ns) (todo, parent, calls) =
      fold (relax cost visited cur c) ns (t, p, k)" using r by simp
  have "fst ` set (fst (fold (relax cost visited cur c) ns (t, p, k))) \<subseteq> fst ` set t \<union> (set ns - visited)"
    by (rule Cons.IH)
  also have "\<dots> \<subseteq> (fst ` set todo \<union> ({n} - visited)) \<union> (set ns - visited)"
    using tk by (intro Un_mono subset_refl)
  also have "\<dots> = fst ` set todo \<union> (set (n # ns) - visited)"
    by (simp only: list.set) blast
  finally show ?case unfolding f .
qed


lemma min_item_in: "min_item x xs \<in> set (x # xs)"
proof -
  have "fold (\<lambda>y best. if snd y < snd best then y else best) xs b \<in> insert b (set xs)" for b
    by (induction xs arbitrary: b) auto
  then show ?thesis by (simp add: min_item_def)
qed

lemma adj_to_vertex: "adj_to G v = Inr ns \<Longrightarrow> v \<in> vertices G"
  by (auto simp: adj_to_def vertices_def split: option.splits dest!: map_of_SomeD intro: rev_image_eqI)

lemma dijkstra_measure:
  assumes "(cur, c) = min_item x xs" and "adj_to G cur = Inr ns"
    and f: "(todo2, rest) =
      fold (relax cost (insert cur visited) cur c) ns (AList.delete cur (x # xs), parent, calls)"
  shows "card (vertices G - insert cur visited) < card (vertices G - visited) \<or>
         (card (vertices G - insert cur visited) = card (vertices G - visited) \<and>
          card (fst ` set todo2 \<inter> insert cur visited) < card (fst ` set (x # xs) \<inter> visited))"
proof (cases "cur \<in> visited")
  case False
  have "cur \<in> vertices G" using assms(2) by (rule adj_to_vertex)
  with False have "vertices G - insert cur visited \<subset> vertices G - visited" by blast
  moreover have "finite (vertices G - visited)" by (simp add: vertices_def)
  ultimately show ?thesis by (simp add: psubset_card_mono)
next
  case True
  then have iv: "insert cur visited = visited" by blast
  have ck: "cur \<in> fst ` set (x # xs)"
    using min_item_in [of x xs] assms(1) by (metis fst_conv image_eqI)
  have "fst ` set todo2 \<subseteq> fst ` set (AList.delete cur (x # xs)) \<union> (set ns - insert cur visited)"
    using relax_keys [of cost "insert cur visited" cur c ns "AList.delete cur (x # xs)" parent calls]
    unfolding f [symmetric] by (simp only: fst_conv)
  then have "fst ` set todo2 \<subseteq> (fst ` set (x # xs) - {cur}) \<union> (set ns - visited)"
    unfolding keys_delete iv .
  then have "fst ` set todo2 \<inter> visited \<subseteq> (fst ` set (x # xs) \<inter> visited) - {cur}" by blast
  moreover have "(fst ` set (x # xs) \<inter> visited) - {cur} \<subset> fst ` set (x # xs) \<inter> visited"
    using ck True by blast
  ultimately have "fst ` set todo2 \<inter> visited \<subset> fst ` set (x # xs) \<inter> visited" by (rule subset_psubset_trans)
  moreover have "finite (fst ` set (x # xs) \<inter> visited)" by simp
  ultimately have "card (fst ` set todo2 \<inter> visited) < card (fst ` set (x # xs) \<inter> visited)"
    by (rule psubset_card_mono [rotated])
  then show ?thesis unfolding iv by simp
qed

text \<open>The \<open>while todo and (dest not in visited)\<close> loop. \<open>G.adj_to(cur)\<close> raises KeyError when
  \<open>cur\<close> is no key of \<open>_tosets\<close>.\<close>

function dijkstra_loop ::
  "'v digraph \<Rightarrow> ('v \<times> 'v \<Rightarrow> real) \<Rightarrow> 'v \<Rightarrow> 'v todo \<Rightarrow> 'v set \<Rightarrow> ('v \<rightharpoonup> 'v) \<Rightarrow> 'v calls \<Rightarrow>
   (error + 'v todo \<times> 'v set \<times> ('v \<rightharpoonup> 'v)) \<times> 'v calls"
where
  "dijkstra_loop G cost dest todo visited parent calls =
     (case todo of
        [] \<Rightarrow> (Inr (todo, visited, parent), calls)
      | x # xs \<Rightarrow>
          if dest \<in> visited then (Inr (todo, visited, parent), calls)
          else (case min_item x xs of
                  (cur, c) \<Rightarrow>
                    (case adj_to G cur of
                       Inl e \<Rightarrow> (Inl e, calls)
                     | Inr ns \<Rightarrow>
                         (case fold (relax cost (insert cur visited) cur c) ns
                                 (AList.delete cur todo, parent, calls) of
                            (todo', parent', calls') \<Rightarrow>
                              dijkstra_loop G cost dest todo' (insert cur visited) parent' calls'))))"
  by pat_completeness auto
termination
proof (relation "measures [\<lambda>(G, cost, dest, todo, visited, parent, calls). card (vertices G - visited),
                           \<lambda>(G, cost, dest, todo, visited, parent, calls). card (fst ` set todo \<inter> visited)]",
       goal_cases)
  case 1
  show ?case by simp
next
  case prems: 2
  note m = dijkstra_measure [OF prems(3) prems(4) prems(5) [unfolded prems(1)]]
  show ?case using m prems(1) by auto
qed

declare dijkstra_loop.simps [simp del]


text \<open>The loop \<open>while parent[vertex_iterator] != start\<close> that collects the path from the
  destination backwards. \<open>parent[vertex_iterator]\<close> raises KeyError on a missing key; on a
  dictionary with a cycle that avoids \<open>start\<close> the loop does not end, which is the value
  \<open>None\<close> here.\<close>

partial_function (option) walk_back ::
  "('v \<rightharpoonup> 'v) \<Rightarrow> 'v \<Rightarrow> 'v \<Rightarrow> 'v list \<Rightarrow> (error + 'v list) option"
where
  "walk_back parent start vertex_iterator path =
     (case parent vertex_iterator of
        None \<Rightarrow> Some (Inl KeyError)
      | Some u \<Rightarrow>
          if u \<noteq> start then walk_back parent start u (path @ [u])
          else Some (Inr path))"

text \<open>\<open>least_cost_path\<close>, with the calls of the cost function it has made. The outer
  \<open>option\<close> is \<open>None\<close> where the function does not return.\<close>

definition least_cost_path_run ::
  "'v digraph \<Rightarrow> 'v \<Rightarrow> 'v \<Rightarrow> ('v \<times> 'v \<Rightarrow> real) \<Rightarrow> (error + 'v list) option \<times> 'v calls" where
  "least_cost_path_run G start dest cost =
     (if start = dest \<and> start \<notin> vertices G then (Some (Inr []), [])
      else (case dijkstra_loop G cost dest [(start, 0)] {} Map.empty [] of
              (Inl e, calls) \<Rightarrow> (Some (Inl e), calls)
            | (Inr (todo, visited, parent), calls) \<Rightarrow>
                (if start = dest \<and> start \<in> vertices G then Some (Inr [start])
                 else if dest \<in> visited
                   then (case walk_back parent start dest [dest] of
                           None \<Rightarrow> None
                         | Some (Inl e) \<Rightarrow> Some (Inl e)
                         | Some (Inr path) \<Rightarrow> Some (Inr (rev (path @ [start]))))
                   else Some (Inr []),
                 calls)))"

definition least_cost_path ::
  "'v digraph \<Rightarrow> 'v \<Rightarrow> 'v \<Rightarrow> ('v \<times> 'v \<Rightarrow> real) \<Rightarrow> (error + 'v list) option" where
  "least_cost_path G start dest cost = fst (least_cost_path_run G start dest cost)"

definition cost_calls :: "'v digraph \<Rightarrow> 'v \<Rightarrow> 'v \<Rightarrow> ('v \<times> 'v \<Rightarrow> real) \<Rightarrow> 'v calls" where
  "cost_calls G start dest cost = snd (least_cost_path_run G start dest cost)"

text \<open>The graph \<open>Digraph([(1,2), (2,3), (3,1), (4,3), (3,5), (5,4)])\<close> of the doctests.\<close>

definition G_doc :: "int digraph" where
  "G_doc = \<lparr>tosets = [(1, [2]), (2, [3]), (3, [5, 1]), (4, [3]), (5, [4])],
            fromsets = [(1, [3]), (2, [1]), (3, [4, 2]), (4, [5]), (5, [3])]\<rparr>"

lemma G_doc_build: "Digraph [(1, 2), (2, 3), (3, 1), (4, 3), (3, 5), (5, 4::int)] = Inr G_doc"
  by (simp add: Digraph_def G_doc_def add_edge_def add_vertex_def empty_digraph_def)

text \<open>
  Claim C3 says that \<open>least_cost_path\<close> returns the empty list, raising nothing, when the
  source is no vertex of the graph and differs from the destination. The membership of the
  source is tested only where it equals the destination; otherwise the first round of the
  loop takes the source from \<open>todo\<close> and subscripts \<open>_tosets\<close> with it. On the graph with
  the one edge \<open>(1, 2)\<close>, from 9 to 1, the call raises KeyError.
\<close>

theorem least_cost_path_absent_source_raises:
  "least_cost_path G12 9 1 (\<lambda>e. 1) = Some (Inl KeyError)"
  by (simp add: least_cost_path_def least_cost_path_run_def G12_def vertices_def dijkstra_loop.simps
      adj_to_def min_item_def)

theorem least_cost_path_absent_source_raises_witness:
  "least_cost_path G12 9 1 (\<lambda>e. 1) \<noteq> Some (Inr [])"
  using least_cost_path_absent_source_raises by simp

section \<open>The cost function is called on edges only\<close>

lemma relax_calls:
  assumes "set calls \<subseteq> E" "\<forall>n \<in> set ns. (cur, n) \<in> E"
  shows "set (snd (snd (fold (relax cost visited cur c) ns (todo, parent, calls)))) \<subseteq> E"
  using assms
proof (induction ns arbitrary: todo parent calls)
  case Nil
  then show ?case by simp
next
  case (Cons n ns)
  obtain t p k where r: "relax cost visited cur c n (todo, parent, calls) = (t, p, k)"
    using prod_cases3 by blast
  have "k = calls \<or> k = calls @ [(cur, n)] \<or> k = calls @ [(cur, n), (cur, n)]"
    using r by (auto simp: relax_def split: if_splits option.splits)
  moreover have "(cur, n) \<in> E" using Cons.prems(2) by simp
  ultimately have "set k \<subseteq> E" using Cons.prems(1) by auto
  moreover have "\<forall>n \<in> set ns. (cur, n) \<in> E" using Cons.prems(2) by simp
  ultimately have "set (snd (snd (fold (relax cost visited cur c) ns (t, p, k)))) \<subseteq> E"
    by (rule Cons.IH)
  then show ?case using r by simp
qed

lemma dijkstra_loop_calls:
  "set calls \<subseteq> edges G \<Longrightarrow>
   set (snd (dijkstra_loop G cost dest todo visited parent calls)) \<subseteq> edges G"
proof (induction G cost dest todo visited parent calls rule: dijkstra_loop.induct)
  case (1 G cost dest todo visited parent calls)
  show ?case
  proof (cases todo)
    case Nil
    then show ?thesis using "1.prems" by (subst dijkstra_loop.simps) simp
  next
    case (Cons x xs)
    show ?thesis
    proof (cases "dest \<in> visited")
      case True
      then show ?thesis using "1.prems" Cons by (subst dijkstra_loop.simps) simp
    next
      case False
      obtain cur c where m: "min_item x xs = (cur, c)" by (cases "min_item x xs") auto
      show ?thesis
      proof (cases "adj_to G cur")
        case (Inl e)
        then show ?thesis using "1.prems" Cons False m by (subst dijkstra_loop.simps) simp
      next
        case (Inr ns)
        obtain t p k where f: "fold (relax cost (insert cur visited) cur c) ns
            (AList.delete cur todo, parent, calls) = (t, p, k)"
          using prod_cases3 by blast
        have "\<forall>n \<in> set ns. (cur, n) \<in> edges G" using Inr by (auto intro: adj_to_edges)
        from relax_calls [OF "1.prems" this, of cost "insert cur visited" c "AList.delete cur todo" parent]
        have "set k \<subseteq> edges G" using f by simp
        then have "set (snd (dijkstra_loop G cost dest t (insert cur visited) p k)) \<subseteq> edges G"
          using "1.IH" [OF Cons False m [symmetric] Inr f [symmetric] refl] by simp
        moreover have "dijkstra_loop G cost dest todo visited parent calls =
            dijkstra_loop G cost dest t (insert cur visited) p k"
          using Cons False m Inr f by (subst dijkstra_loop.simps) simp
        ultimately show ?thesis by simp
      qed
    qed
  qed
qed

text \<open>
  Claim C10. Every pair that \<open>least_cost_path\<close> passes to the cost function is an edge of
  the graph: the second component is in \<open>adj_to\<close> of the first.
\<close>

theorem cost_called_on_edges_only:
  "\<forall>(v, w) \<in> set (cost_calls G start dest cost). \<exists>ns. adj_to G v = Inr ns \<and> w \<in> set ns"
proof -
  have "set (snd (dijkstra_loop G cost dest [(start, 0)] {} Map.empty [])) \<subseteq> edges G"
    by (rule dijkstra_loop_calls) simp
  then have "set (cost_calls G start dest cost) \<subseteq> edges G"
    by (auto simp: cost_calls_def least_cost_path_run_def split: prod.splits sum.splits)
  then show ?thesis by (auto dest: edges_adj_to)
qed

theorem cost_called_on_edges_only_witness:
  "cost_calls G_doc 1 5 (\<lambda>e. 1) = [(1, 2), (2, 3), (3, 5), (5, 4)] \<and>
   (\<exists>ns. adj_to G_doc 1 = Inr ns \<and> 2 \<in> set ns) \<and>
   (\<exists>ns. adj_to G_doc 5 = Inr ns \<and> 4 \<in> set ns)"
proof -
  have c: "cost_calls G_doc 1 5 (\<lambda>e. 1) = [(1, 2), (2, 3), (3, 5), (5, 4)]"
    by (simp add: cost_calls_def least_cost_path_run_def G_doc_def vertices_def dijkstra_loop.simps
      adj_to_def relax_def min_item_def split: prod.splits)
  show ?thesis using cost_called_on_edges_only [of G_doc 1 5 "\<lambda>e. 1"] unfolding c by (simp add: c)
qed

section \<open>Counting vertices and edges\<close>

text \<open>Keys occur once in a dictionary and elements once in a set.\<close>

definition wf_adj :: "'v digraph \<Rightarrow> bool" where
  "wf_adj G =
     (distinct (map fst (tosets G)) \<and> (\<forall>v ns. map_of (tosets G) v = Some ns \<longrightarrow> distinct ns))"

lemma mem_edges: "((v, w) \<in> edges G) = (\<exists>ns. map_of (tosets G) v = Some ns \<and> w \<in> set ns)"
  by (simp add: edges_def)

lemma edges_add_vertex: "edges (add_vertex v G) = edges G"
proof -
  have "((x, w) \<in> edges (add_vertex v G)) = ((x, w) \<in> edges G)" for x w
    by (cases "x = v") (auto simp: mem_edges tosets_add_vertex)
  then show ?thesis by (intro set_eqI) (simp only: split_paired_all)
qed

lemma vertices_dom: "vertices G = dom (map_of (tosets G))"
  by (simp add: vertices_def dom_map_of_conv_image_fst)

lemma vertices_add_vertex: "vertices (add_vertex v G) = insert v (vertices G)"
  unfolding vertices_dom tosets_add_vertex by (auto split: if_splits)

lemma wf_adj_add_vertex:
  assumes "wf_adj G"
  shows "wf_adj (add_vertex v G)"
proof -
  from assms have d: "distinct (map fst (tosets G))"
    and l: "\<And>x ns. map_of (tosets G) x = Some ns \<Longrightarrow> distinct ns"
    unfolding wf_adj_def by blast+
  have "distinct (map fst (tosets (add_vertex v G)))"
    using d by (simp add: add_vertex_def distinct_update)
  moreover have "distinct ns" if t: "map_of (tosets (add_vertex v G)) x = Some ns" for x ns
  proof (cases "map_of (tosets G) v = None \<and> x = v")
    case True
    with t show ?thesis by (simp add: tosets_add_vertex)
  next
    case False
    with t have "map_of (tosets G) x = Some ns" by (auto simp: tosets_add_vertex split: if_splits)
    then show ?thesis by (rule l)
  qed
  ultimately show ?thesis unfolding wf_adj_def by blast
qed

lemma add_edge_result:
  assumes "add_edge (a, b) G = Inr G'"
  shows "edges G' = insert (a, b) (edges G)" and "vertices G' = insert a (insert b (vertices G))"
    and "wf_adj G \<Longrightarrow> wf_adj G'"
proof -
  let ?G1 = "add_vertex b (add_vertex a G)"
  from assms obtain ns where ns: "map_of (tosets ?G1) a = Some ns"
    and T: "tosets G' = AList.update a (List.insert b ns) (tosets ?G1)"
    by (auto simp: add_edge_def Let_def split: option.splits)
  have m: "map_of (tosets G') = (map_of (tosets ?G1))(a \<mapsto> List.insert b ns)"
    unfolding T by (simp add: update_conv')
  have "((v, w) \<in> edges G') = ((v, w) \<in> insert (a, b) (edges ?G1))" for v w
  proof (cases "v = a")
    case True
    then show ?thesis using ns by (auto simp: mem_edges m)
  next
    case False
    then show ?thesis by (simp add: mem_edges m)
  qed
  then have "edges G' = insert (a, b) (edges ?G1)" by (intro set_eqI) (simp only: split_paired_all)
  then show "edges G' = insert (a, b) (edges G)" by (simp add: edges_add_vertex)
  have "vertices G' = insert a (vertices ?G1)" unfolding vertices_dom m by simp
  then show "vertices G' = insert a (insert b (vertices G))"
    by (auto simp: vertices_add_vertex)
  assume "wf_adj G"
  then have w: "wf_adj ?G1" by (intro wf_adj_add_vertex)
  then have d1: "distinct (map fst (tosets ?G1))"
    and l1: "\<And>x ns. map_of (tosets ?G1) x = Some ns \<Longrightarrow> distinct ns"
    unfolding wf_adj_def by blast+
  have "distinct ns" using ns by (rule l1)
  then have "distinct (List.insert b ns)" by simp
  have "distinct (map fst (tosets G'))" unfolding T using d1 by (simp add: distinct_update)
  moreover have "distinct ns'" if t: "map_of (tosets G') x = Some ns'" for x ns'
  proof (cases "x = a")
    case True
    with t m have "ns' = List.insert b ns" by simp
    with \<open>distinct (List.insert b ns)\<close> show ?thesis by simp
  next
    case False
    with t m have "map_of (tosets ?G1) x = Some ns'" by simp
    then show ?thesis by (rule l1)
  qed
  ultimately show "wf_adj G'" unfolding wf_adj_def by blast
qed

lemma fold_plus: "fold (\<lambda>v m. m + g v) ks (a::nat) = a + sum_list (map g ks)"
  by (induction ks arbitrary: a) auto

lemma num_edges_sum:
  assumes "distinct (map fst (tosets G))"
  shows "num_edges G = sum_list (map (\<lambda>(v, ns). length ns) (tosets G))"
proof -
  have "map (\<lambda>v. case map_of (tosets G) v of None \<Rightarrow> 0 | Some ns \<Rightarrow> length ns) (map fst (tosets G))
      = map (\<lambda>(v, ns). length ns) (tosets G)"
    using assms by (auto split: option.splits dest: eq_key_imp_eq_value simp: map_of_eq_None_iff intro: rev_image_eqI)
  then show ?thesis by (simp only: num_edges_def fold_plus add_0)
qed

lemma card_edges_sum:
  assumes "distinct (map fst ts)" "\<forall>(v, ns) \<in> set ts. distinct ns"
  shows "card {(v, w). \<exists>ns. map_of ts v = Some ns \<and> w \<in> set ns} = sum_list (map (\<lambda>(v, ns). length ns) ts)
         \<and> finite {(v, w). \<exists>ns. map_of ts v = Some ns \<and> w \<in> set ns}"
  using assms
proof (induction ts)
  case Nil
  then show ?case by simp
next
  case (Cons p ts)
  obtain a ns where p: "p = (a, ns)" by (cases p)
  let ?E = "{(v, w). \<exists>ns. map_of ts v = Some ns \<and> w \<in> set ns}"
  have a: "a \<notin> fst ` set ts" using Cons.prems(1) p by simp
  then have an: "map_of ts a = None" by (simp add: map_of_eq_None_iff)
  have "((v, w) \<in> {(v, w). \<exists>ns'. map_of (p # ts) v = Some ns' \<and> w \<in> set ns'}) =
        ((v, w) \<in> (Pair a ` set ns) \<union> ?E)" for v w
    using an by (cases "v = a") (auto simp: p)
  then have e: "{(v, w). \<exists>ns'. map_of (p # ts) v = Some ns' \<and> w \<in> set ns'} = (Pair a ` set ns) \<union> ?E"
    by (intro set_eqI) (simp only: split_paired_all)
  have d: "(Pair a ` set ns) \<inter> ?E = {}" using an by auto
  have ih: "card ?E = sum_list (map (\<lambda>(v, ns). length ns) ts)" "finite ?E"
    using Cons.IH Cons.prems by auto
  have "card (Pair a ` set ns) = length ns"
    using Cons.prems(2) p by (simp add: card_image inj_on_def distinct_card)
  then have "card ((Pair a ` set ns) \<union> ?E) = length ns + card ?E"
    using d ih(2) by (simp add: card_Un_disjoint)
  then show ?case unfolding e using ih p by simp
qed

lemma num_edges_card:
  assumes "wf_adj G"
  shows "num_edges G = card (edges G)" and "finite (edges G)"
proof -
  from assms have d: "distinct (map fst (tosets G))"
    and l0: "\<And>x ns. map_of (tosets G) x = Some ns \<Longrightarrow> distinct ns"
    unfolding wf_adj_def by blast+
  have l: "\<forall>(v, ns) \<in> set (tosets G). distinct ns"
  proof (clarify)
    fix v ns assume "(v, ns) \<in> set (tosets G)"
    with d have "map_of (tosets G) v = Some ns" by simp
    then show "distinct ns" by (rule l0)
  qed
  from card_edges_sum [OF d l] num_edges_sum [OF d]
  show "num_edges G = card (edges G)" and "finite (edges G)" by (simp_all add: edges_def)
qed

section \<open>The random graph generator\<close>

text \<open>
  \<open>random.sample(range(n), 2)\<close> raises ValueError when \<open>n < 2\<close> and otherwise returns two
  different elements of \<open>range(n)\<close>. The random choices of a run are a parameter of the
  model: the list of the samples drawn, in order, each a pair that satisfies
  \<open>valid_sample\<close>. A run that needs more samples than the list holds has not returned,
  which is the value \<open>None\<close>.
\<close>

definition valid_sample :: "int \<Rightarrow> int \<times> int \<Rightarrow> bool" where
  "valid_sample n e = (0 \<le> fst e \<and> fst e < n \<and> 0 \<le> snd e \<and> snd e < n \<and> fst e \<noteq> snd e)"

definition sample_error :: error where
  "sample_error = ValueError ''Sample larger than population or is negative'' []"

text \<open>The loop \<open>while G.num_edges() < m: G.add_edge(random.sample(range(n), 2))\<close>.\<close>

fun rg_loop :: "int \<Rightarrow> int \<Rightarrow> (int \<times> int) list \<Rightarrow> int digraph \<Rightarrow> (error + int digraph) option" where
  "rg_loop n m [] G =
     (if int (num_edges G) < m
      then (if n < 2 then Some (Inl sample_error) else None)
      else Some (Inr G))"
| "rg_loop n m (e # es) G =
     (if int (num_edges G) < m
      then (if n < 2 then Some (Inl sample_error)
            else (case add_edge e G of
                    Inl err \<Rightarrow> Some (Inl err)
                  | Inr G' \<Rightarrow> rg_loop n m es G'))
      else Some (Inr G))"

text \<open>\<open>random_graph\<close>: the vertices \<open>range(n)\<close> are added to a new graph, then the number of
  edges asked for is compared with \<open>n * (n - 1)\<close>. The ValueError carries the format string
  and the three values that are formatted into it.\<close>

definition random_graph :: "int \<Rightarrow> int \<Rightarrow> (int \<times> int) list \<Rightarrow> (error + int digraph) option" where
  "random_graph n m samples =
     (let G = fold add_vertex [0..n - 1] empty_digraph;
          max_num_edges = n * (n - 1)
      in if m > max_num_edges
         then Some (Inl (ValueError
           ''For {} vertices, you wanted {} edges, but can only have a maximum of {}''
           [n, m, max_num_edges]))
         else rg_loop n m samples G)"

lemma fold_add_vertex:
  assumes "lockstep G" "wf_adj G"
  shows "lockstep (fold add_vertex vs G) \<and> wf_adj (fold add_vertex vs G) \<and>
         vertices (fold add_vertex vs G) = vertices G \<union> set vs \<and>
         edges (fold add_vertex vs G) = edges G"
  using assms
proof (induction vs arbitrary: G)
  case Nil
  then show ?case by simp
next
  case (Cons v vs)
  have "lockstep (add_vertex v G)" "wf_adj (add_vertex v G)"
    using Cons.prems by (simp_all add: lockstep_add_vertex wf_adj_add_vertex)
  from Cons.IH [OF this] show ?case
    by (simp add: vertices_add_vertex edges_add_vertex)
qed

lemma empty_digraph_props:
  "lockstep (empty_digraph :: 'v digraph)" "wf_adj (empty_digraph :: 'v digraph)"
  "vertices (empty_digraph :: 'v digraph) = {}" "edges (empty_digraph :: 'v digraph) = {}"
  by (simp_all add: lockstep_def wf_adj_def empty_digraph_def vertices_def edges_def)

lemma rg_loop_correct:
  assumes "lockstep G" "wf_adj G" "vertices G = {0..<n}" "edges G \<subseteq> {e. valid_sample n e}"
    and "\<forall>e \<in> set samples. valid_sample n e" "int (card (edges G)) \<le> m" "m \<le> n * (n - 1)" "0 \<le> n"
  shows "(rg_loop n m samples G = None \<and> int (card (edges G \<union> set samples)) < m) \<or>
         (\<exists>G'. rg_loop n m samples G = Some (Inr G') \<and> wf_adj G' \<and> vertices G' = {0..<n} \<and>
               edges G' \<subseteq> {e. valid_sample n e} \<and> int (card (edges G')) = m)"
  using assms(1-6)
proof (induction samples arbitrary: G)
  case Nil
  note ne = num_edges_card [OF Nil.prems(2)]
  show ?case
  proof (cases "int (num_edges G) < m")
    case False
    with ne Nil.prems have "int (card (edges G)) = m" by simp
    with False Nil.prems show ?thesis by simp
  next
    case True
    have "2 \<le> n"
    proof (rule ccontr)
      assume "\<not> 2 \<le> n"
      with assms(8) have "n = 0 \<or> n = 1" by linarith
      then have "n * (n - 1) = 0" by auto
      with assms(7) True show False by simp
    qed
    with True ne show ?thesis by simp
  qed
next
  case (Cons e es)
  note ne = num_edges_card [OF Cons.prems(2)]
  show ?case
  proof (cases "int (num_edges G) < m")
    case False
    with ne Cons.prems have "int (card (edges G)) = m" by simp
    with False Cons.prems show ?thesis by simp
  next
    case True
    have n2: "2 \<le> n"
    proof (rule ccontr)
      assume "\<not> 2 \<le> n"
      with assms(8) have "n = 0 \<or> n = 1" by linarith
      then have "n * (n - 1) = 0" by auto
      with assms(7) True show False by simp
    qed
    obtain a b where e: "e = (a, b)" by (cases e)
    from lockstep_add_edge [OF Cons.prems(1), of e] obtain G1 where
      G1: "add_edge e G = Inr G1" "lockstep G1" by blast
    note r = add_edge_result [OF G1(1) [unfolded e]]
    have ve: "valid_sample n e" using Cons.prems(5) by simp
    have w1: "wf_adj G1" using r(3) Cons.prems(2) by simp
    have v1: "vertices G1 = {0..<n}"
      using r(2) Cons.prems(3) ve by (auto simp: valid_sample_def e)
    have e1: "edges G1 = insert e (edges G)" using r(1) e by simp
    then have s1: "edges G1 \<subseteq> {e. valid_sample n e}" using Cons.prems(4) ve by simp
    have "card (edges G1) \<le> Suc (card (edges G))"
      unfolding e1 using ne(2) by (simp add: card_insert_le_m1)
    with True ne(1) have c1: "int (card (edges G1)) \<le> m" by simp
    have s: "\<forall>e \<in> set es. valid_sample n e" using Cons.prems(5) by simp
    have u: "edges G1 \<union> set es = edges G \<union> set (e # es)" unfolding e1 by simp
    have "rg_loop n m (e # es) G = rg_loop n m es G1" using True n2 G1(1) by simp
    with Cons.IH [OF G1(2) w1 v1 s1 s c1] show ?thesis unfolding u by simp
  qed
qed


text \<open>
  Claim C8. For natural numbers \<open>n\<close> and \<open>m\<close>: when \<open>m > n * (n - 1)\<close>, \<open>random_graph n m\<close>
  raises the ValueError whose message is formatted from \<open>n\<close>, \<open>m\<close> and \<open>n * (n - 1)\<close>,
  whatever the samples (none is drawn and no graph is returned). When \<open>m \<le> n * (n - 1)\<close>,
  the run returns as soon as the samples drawn hold \<open>m\<close> different pairs, and the graph it
  returns has the vertices \<open>0, \<dots>, n - 1\<close>, \<open>n\<close> of them, and exactly \<open>m\<close> edges, none of
  them a self-loop; it has not returned only while the samples hold fewer than \<open>m\<close>
  different pairs.
\<close>

theorem random_graph_counts:
  assumes "0 \<le> n" and "0 \<le> m" and "\<forall>e \<in> set samples. valid_sample n e"
  shows "(m > n * (n - 1) \<longrightarrow>
            random_graph n m samples = Some (Inl (ValueError
              ''For {} vertices, you wanted {} edges, but can only have a maximum of {}''
              [n, m, n * (n - 1)]))) \<and>
         (m \<le> n * (n - 1) \<longrightarrow>
            (random_graph n m samples = None \<and> int (card (set samples)) < m) \<or>
            (\<exists>G. random_graph n m samples = Some (Inr G) \<and>
                 vertices G = {0..<n} \<and> int (num_vertices G) = n \<and>
                 int (num_edges G) = m \<and> int (card (edges G)) = m \<and> (\<forall>v. (v, v) \<notin> edges G)))"
proof (intro conjI impI)
  assume "m > n * (n - 1)"
  then show "random_graph n m samples = Some (Inl (ValueError
      ''For {} vertices, you wanted {} edges, but can only have a maximum of {}''
      [n, m, n * (n - 1)]))"
    by (simp add: random_graph_def Let_def)
next
  assume le: "m \<le> n * (n - 1)"
  let ?G = "fold add_vertex [0..n - 1] (empty_digraph :: int digraph)"
  have r: "random_graph n m samples = rg_loop n m samples ?G"
    using le by (simp add: random_graph_def Let_def)
  note f = fold_add_vertex [OF empty_digraph_props(1,2), of "[0..n - 1]"]
  have v: "vertices ?G = {0..<n}" using f by (auto simp: empty_digraph_props)
  have e: "edges ?G = {}" using f by (simp add: empty_digraph_props)
  have "(rg_loop n m samples ?G = None \<and> int (card (edges ?G \<union> set samples)) < m) \<or>
         (\<exists>G'. rg_loop n m samples ?G = Some (Inr G') \<and> wf_adj G' \<and> vertices G' = {0..<n} \<and>
               edges G' \<subseteq> {e. valid_sample n e} \<and> int (card (edges G')) = m)"
    by (rule rg_loop_correct) (use f v e assms le in simp_all)
  then show "(random_graph n m samples = None \<and> int (card (set samples)) < m) \<or>
            (\<exists>G. random_graph n m samples = Some (Inr G) \<and>
                 vertices G = {0..<n} \<and> int (num_vertices G) = n \<and>
                 int (num_edges G) = m \<and> int (card (edges G)) = m \<and> (\<forall>v. (v, v) \<notin> edges G))"
  proof
    assume "rg_loop n m samples ?G = None \<and> int (card (edges ?G \<union> set samples)) < m"
    then show ?thesis unfolding r e by simp
  next
    assume "\<exists>G'. rg_loop n m samples ?G = Some (Inr G') \<and> wf_adj G' \<and> vertices G' = {0..<n} \<and>
               edges G' \<subseteq> {e. valid_sample n e} \<and> int (card (edges G')) = m"
    then obtain G' where G': "rg_loop n m samples ?G = Some (Inr G')" "wf_adj G'"
      "vertices G' = {0..<n}" "edges G' \<subseteq> {e. valid_sample n e}" "int (card (edges G')) = m"
      by blast
    have "num_vertices G' = length (map fst (tosets G'))" by (simp add: num_vertices_def)
    also have "\<dots> = card (set (map fst (tosets G')))"
      using G'(2) by (simp add: wf_adj_def distinct_card del: set_map)
    also have "\<dots> = card {0..<n}" using G'(3) by (simp add: vertices_def)
    finally have nv: "int (num_vertices G') = n" using assms(1) by simp
    have ne: "int (num_edges G') = m" using num_edges_card(1) [OF G'(2)] G'(5) by simp
    have "(v, v) \<notin> edges G'" for v using G'(4) by (auto simp: valid_sample_def)
    with G' nv ne show ?thesis unfolding r by blast
  qed
qed

theorem random_graph_counts_witness:
  "random_graph 1 1 [] = Some (Inl (ValueError
      ''For {} vertices, you wanted {} edges, but can only have a maximum of {}'' [1, 1, 0])) \<and>
   random_graph 2 1 [(0, 1)] =
     Some (Inr \<lparr>tosets = [(0, [1]), (1, [])], fromsets = [(0, []), (1, [0])]\<rparr>) \<and>
   (\<exists>G. random_graph 2 1 [(0, 1)] = Some (Inr G) \<and> int (num_edges G) = 1)"
proof -
  have a: "random_graph 2 1 [(0, 1)] =
     Some (Inr \<lparr>tosets = [(0, [1]), (1, [])], fromsets = [(0, []), (1, [0])]\<rparr>)"
    by code_simp
  have b: "\<forall>e \<in> set [(0, 1)]. valid_sample 2 e" by (simp add: valid_sample_def)
  have c: "\<forall>e \<in> set []. valid_sample 1 e" by simp
  show ?thesis
    using random_graph_counts [of 1 1 "[]"] random_graph_counts [of 2 1 "[(0, 1)]"] a b c
    by auto
qed

section \<open>Correctness of the breadth-first search\<close>

text \<open>\<open>walk G s q x\<close>: \<open>q\<close> leads from \<open>s\<close> to \<open>x\<close> along edges of \<open>G\<close>.\<close>

definition walk :: "'v digraph \<Rightarrow> 'v \<Rightarrow> 'v list \<Rightarrow> 'v \<Rightarrow> bool" where
  "walk G s q x = (q \<noteq> [] \<and> hd q = s \<and> last q = x \<and> successively (\<lambda>v w. (v, w) \<in> edges G) q)"

lemma successively_nth:
  "successively P q = (\<forall>k. k + 1 < length q \<longrightarrow> P (q ! k) (q ! (k + 1)))"
proof (induction P q rule: successively.induct)
  case (3 P x y xs)
  show ?case
  proof
    assume a: "successively P (x # y # xs)"
    show "\<forall>k. k + 1 < length (x # y # xs) \<longrightarrow> P ((x # y # xs) ! k) ((x # y # xs) ! (k + 1))"
    proof (intro allI impI)
      fix k assume k: "k + 1 < length (x # y # xs)"
      show "P ((x # y # xs) ! k) ((x # y # xs) ! (k + 1))"
      proof (cases k)
        case 0
        with a show ?thesis by simp
      next
        case (Suc j)
        with a k 3 show ?thesis by simp
      qed
    qed
  next
    assume a: "\<forall>k. k + 1 < length (x # y # xs) \<longrightarrow> P ((x # y # xs) ! k) ((x # y # xs) ! (k + 1))"
    then have "P x y" by (auto dest: spec [where x = 0])
    moreover have "\<forall>k. k + 1 < length (y # xs) \<longrightarrow> P ((y # xs) ! k) ((y # xs) ! (k + 1))"
    proof (intro allI impI)
      fix k assume "k + 1 < length (y # xs)"
      then have "Suc k + 1 < length (x # y # xs)" by simp
      with a have "P ((x # y # xs) ! Suc k) ((x # y # xs) ! (Suc k + 1))" by blast
      then show "P ((y # xs) ! k) ((y # xs) ! (k + 1))" by simp
    qed
    ultimately show "successively P (x # y # xs)" using 3 by simp
  qed
qed simp_all

lemma walk_valid_path:
  assumes "s \<in> vertices G"
  shows "walk G s q x = (valid_path G q \<and> hd q = s \<and> last q = x)"
proof (cases "q = []")
  case True
  then show ?thesis by (simp add: walk_def valid_path_def)
next
  case False
  then have "q ! 0 = hd q" by (simp add: hd_conv_nth)
  with assms False show ?thesis
    unfolding walk_def valid_path_def successively_nth [of _ q] by auto
qed

lemma walk_single: "walk G s [s] s"
  by (simp add: walk_def)

lemma walk_snoc: "walk G s q x \<Longrightarrow> (x, y) \<in> edges G \<Longrightarrow> walk G s (q @ [y]) y"
  by (simp add: walk_def successively_append_iff)

lemma walk_butlast:
  assumes "walk G s q x" "2 \<le> length q"
  shows "walk G s (butlast q) (last (butlast q))" and "(last (butlast q), x) \<in> edges G"
    and "length (butlast q) = length q - 1"
proof -
  from assms(2) have b: "butlast q \<noteq> []" by (cases q rule: rev_cases) (auto simp: Suc_le_eq)
  from assms(1) have q: "q = butlast q @ [x]" by (metis append_butlast_last_id walk_def)
  from assms(1) have "successively (\<lambda>v w. (v, w) \<in> edges G) (butlast q @ [x])" "hd q = s"
    using q by (simp_all add: walk_def)
  then have "successively (\<lambda>v w. (v, w) \<in> edges G) (butlast q)" "(last (butlast q), x) \<in> edges G"
    using b by (simp_all add: successively_append_iff)
  moreover have "hd (butlast q) = s" using \<open>hd q = s\<close> b q by (metis hd_append2)
  ultimately show "walk G s (butlast q) (last (butlast q))" "(last (butlast q), x) \<in> edges G"
    using b by (simp_all add: walk_def)
  show "length (butlast q) = length q - 1" by simp
qed

lemma walk_length_1: "walk G s q x \<Longrightarrow> length q \<le> 1 \<Longrightarrow> x = s \<and> q = [s]"
  by (cases q) (auto simp: walk_def)

lemma walk_length_pos: "walk G s q x \<Longrightarrow> 1 \<le> length q"
  by (cases q) (auto simp: walk_def)

text \<open>\<open>closed_v G D x\<close>: every neighbour of \<open>x\<close> is in \<open>D\<close>.\<close>

definition closed_v :: "'v digraph \<Rightarrow> 'v set \<Rightarrow> 'v \<Rightarrow> bool" where
  "closed_v G D x = (\<forall>y. (x, y) \<in> edges G \<longrightarrow> y \<in> D)"

lemma closed_v_mono: "closed_v G D x \<Longrightarrow> D \<subseteq> D' \<Longrightarrow> closed_v G D' x"
  by (auto simp: closed_v_def)

lemma walk_in_closed:
  assumes "s \<in> D" "\<forall>x \<in> D. closed_v G D x"
  shows "walk G s q x \<Longrightarrow> x \<in> D"
proof (induction q arbitrary: x rule: rev_induct)
  case Nil
  then show ?case by (simp add: walk_def)
next
  case (snoc a q)
  show ?case
  proof (cases "q = []")
    case True
    with snoc.prems assms(1) show ?thesis by (auto simp: walk_def)
  next
    case False
    then have "2 \<le> length (q @ [a])" by (cases q) auto
    from walk_butlast(1,2) [OF snoc.prems this]
    have "walk G s q (last q)" "(last q, x) \<in> edges G" by simp_all
    from snoc.IH [OF this(1)] this(2) assms(2) show ?thesis by (auto simp: closed_v_def)
  qed
qed

lemma fold_visit:
  "\<exists>new. fold (visit p) ns (q, vis) = (q @ map (\<lambda>a. p @ [a]) new, vis @ new) \<and>
         set new = set ns - set vis \<and> distinct new"
proof (induction ns arbitrary: q vis)
  case Nil
  show ?case by simp
next
  case (Cons a ns)
  show ?case
  proof (cases "a \<in> set vis")
    case True
    then have "fold (visit p) (a # ns) (q, vis) = fold (visit p) ns (q, vis)" by (simp add: visit_def)
    moreover from Cons [of q vis] obtain new where
      "fold (visit p) ns (q, vis) = (q @ map (\<lambda>a. p @ [a]) new, vis @ new)"
      "set new = set ns - set vis" "distinct new" by blast
    moreover have "set ns - set vis = set (a # ns) - set vis" using True by auto
    ultimately show ?thesis by metis
  next
    case False
    then have "fold (visit p) (a # ns) (q, vis) = fold (visit p) ns (q @ [p @ [a]], vis @ [a])"
      by (simp add: visit_def)
    moreover from Cons [of "q @ [p @ [a]]" "vis @ [a]"] obtain new where n:
      "fold (visit p) ns (q @ [p @ [a]], vis @ [a]) = ((q @ [p @ [a]]) @ map (\<lambda>a. p @ [a]) new, (vis @ [a]) @ new)"
      "set new = set ns - set (vis @ [a])" "distinct new" by blast
    ultimately have "fold (visit p) (a # ns) (q, vis) = (q @ map (\<lambda>a. p @ [a]) (a # new), vis @ (a # new))"
      by simp
    moreover have "set (a # new) = set (a # ns) - set vis" using n(2) False by auto
    moreover have "distinct (a # new)" using n(2,3) by auto
    ultimately show ?thesis by blast
  qed
qed

text \<open>\<open>shortest G s p\<close>: no walk from \<open>s\<close> to the end of \<open>p\<close> is shorter than \<open>p\<close>.\<close>

definition shortest :: "'v digraph \<Rightarrow> 'v \<Rightarrow> 'v list \<Rightarrow> bool" where
  "shortest G s p = (\<forall>q. walk G s q (last p) \<longrightarrow> length p \<le> length q)"

text \<open>The invariant of the \<open>while queue\<close> loop, for a search from \<open>s\<close> to \<open>d\<close>. The
  discovered vertices are \<open>s\<close> and those in \<open>visited\<close>.\<close>

definition bfs_inv :: "'v digraph \<Rightarrow> 'v \<Rightarrow> 'v \<Rightarrow> 'v list list \<Rightarrow> 'v list \<Rightarrow> bool" where
  "bfs_inv G s d queue visited =
     (let D = insert s (set visited) in
      (\<forall>p \<in> set queue. walk G s p (last p) \<and> last p \<in> D) \<and>
      sorted (map length queue) \<and>
      (\<forall>p \<in> set queue. length p \<le> length (hd queue) + 1) \<and>
      (\<forall>x \<in> D. closed_v G D x \<or> (\<exists>p \<in> set queue. last p = x)) \<and>
      (\<forall>p \<in> set queue. last p \<noteq> s \<or> p = [s] \<longrightarrow> shortest G s p) \<and>
      (queue \<noteq> [] \<longrightarrow> (\<forall>q x. walk G s q x \<and> length q < length (hd queue) \<longrightarrow> closed_v G D x)) \<and>
      (queue \<noteq> [] \<longrightarrow> (\<forall>q x. walk G s q x \<and> length q \<le> length (hd queue) \<longrightarrow> x \<in> D)) \<and>
      (closed_v G D s \<or> [s] \<in> set queue) \<and>
      (d \<in> D \<longrightarrow> (\<exists>p \<in> set queue. last p = d)) \<and>
      D \<subseteq> vertices G)"

lemma bfs_inv_init:
  assumes "s \<in> vertices G" "d \<noteq> s"
  shows "bfs_inv G s d [[s]] []"
proof -
  have "shortest G s [s]" by (auto simp: shortest_def dest: walk_length_pos)
  moreover have "\<not> length q < 1" if "walk G s q x" for q x using walk_length_pos [OF that] by linarith
  moreover have "x = s" if "walk G s q x" "length q \<le> 1" for q x using walk_length_1 [OF that] by simp
  ultimately show ?thesis using assms
    unfolding bfs_inv_def Let_def by (auto simp: walk_single)
qed

lemma adj_to_set: "adj_to G v = Inr ns \<Longrightarrow> ((v, y) \<in> edges G) = (y \<in> set ns)"
  by (auto simp: adj_to_def edges_def split: option.splits)

lemma adj_to_total: "v \<in> vertices G \<Longrightarrow> \<exists>ns. adj_to G v = Inr ns"
  unfolding vertices_dom adj_to_def by (auto split: option.splits)

lemma targets_edges: "(v, w) \<in> edges G \<Longrightarrow> w \<in> targets G"
  by (auto simp: edges_def targets_def dest!: map_of_SomeD)


lemma bfs_invD:
  assumes "bfs_inv G s d queue visited"
  shows "\<And>r. r \<in> set queue \<Longrightarrow> walk G s r (last r) \<and> last r \<in> insert s (set visited)"
    and "sorted (map length queue)"
    and "\<And>r. r \<in> set queue \<Longrightarrow> length r \<le> length (hd queue) + 1"
    and "\<And>x. x \<in> insert s (set visited) \<Longrightarrow>
           closed_v G (insert s (set visited)) x \<or> (\<exists>r \<in> set queue. last r = x)"
    and "\<And>r. r \<in> set queue \<Longrightarrow> last r \<noteq> s \<or> r = [s] \<Longrightarrow> shortest G s r"
    and "\<And>q x. queue \<noteq> [] \<Longrightarrow> walk G s q x \<Longrightarrow> length q < length (hd queue) \<Longrightarrow>
           closed_v G (insert s (set visited)) x"
    and "\<And>q x. queue \<noteq> [] \<Longrightarrow> walk G s q x \<Longrightarrow> length q \<le> length (hd queue) \<Longrightarrow>
           x \<in> insert s (set visited)"
    and "closed_v G (insert s (set visited)) s \<or> [s] \<in> set queue"
    and "d \<in> insert s (set visited) \<Longrightarrow> \<exists>r \<in> set queue. last r = d"
    and "insert s (set visited) \<subseteq> vertices G"
proof -
  note i = assms [unfolded bfs_inv_def Let_def]
  note c1 = i [THEN conjunct1]
  note r1 = i [THEN conjunct2]
  note c2 = r1 [THEN conjunct1]
  note r2 = r1 [THEN conjunct2]
  note c3 = r2 [THEN conjunct1]
  note r3 = r2 [THEN conjunct2]
  note c4 = r3 [THEN conjunct1]
  note r4 = r3 [THEN conjunct2]
  note c5 = r4 [THEN conjunct1]
  note r5 = r4 [THEN conjunct2]
  note c6 = r5 [THEN conjunct1]
  note r6 = r5 [THEN conjunct2]
  note c7 = r6 [THEN conjunct1]
  note r7 = r6 [THEN conjunct2]
  note c8 = r7 [THEN conjunct1]
  note r8 = r7 [THEN conjunct2]
  note c9 = r8 [THEN conjunct1]
  note c10 = r8 [THEN conjunct2]
  show "\<And>r. r \<in> set queue \<Longrightarrow> walk G s r (last r) \<and> last r \<in> insert s (set visited)"
    using c1 by (rule bspec)
  show "sorted (map length queue)" by (rule c2)
  show "\<And>r. r \<in> set queue \<Longrightarrow> length r \<le> length (hd queue) + 1" using c3 by (rule bspec)
  show "\<And>x. x \<in> insert s (set visited) \<Longrightarrow>
           closed_v G (insert s (set visited)) x \<or> (\<exists>r \<in> set queue. last r = x)"
    using c4 by (rule bspec)
  show "\<And>r. r \<in> set queue \<Longrightarrow> last r \<noteq> s \<or> r = [s] \<Longrightarrow> shortest G s r"
    using c5 [THEN bspec] by (rule mp)
  show "\<And>q x. queue \<noteq> [] \<Longrightarrow> walk G s q x \<Longrightarrow> length q < length (hd queue) \<Longrightarrow>
           closed_v G (insert s (set visited)) x"
    using c6 [THEN mp, THEN spec, THEN spec, THEN mp] by blast
  show "\<And>q x. queue \<noteq> [] \<Longrightarrow> walk G s q x \<Longrightarrow> length q \<le> length (hd queue) \<Longrightarrow>
           x \<in> insert s (set visited)"
    using c7 [THEN mp, THEN spec, THEN spec, THEN mp] by blast
  show "closed_v G (insert s (set visited)) s \<or> [s] \<in> set queue" by (rule c8)
  show "d \<in> insert s (set visited) \<Longrightarrow> \<exists>r \<in> set queue. last r = d" using c9 by (rule mp)
  show "insert s (set visited) \<subseteq> vertices G" by (rule c10)
qed

lemma bfs_invI:
  assumes "\<And>r. r \<in> set queue \<Longrightarrow> walk G s r (last r) \<and> last r \<in> insert s (set visited)"
    and "sorted (map length queue)"
    and "\<And>r. r \<in> set queue \<Longrightarrow> length r \<le> length (hd queue) + 1"
    and "\<And>x. x \<in> insert s (set visited) \<Longrightarrow>
           closed_v G (insert s (set visited)) x \<or> (\<exists>r \<in> set queue. last r = x)"
    and "\<And>r. r \<in> set queue \<Longrightarrow> last r \<noteq> s \<or> r = [s] \<Longrightarrow> shortest G s r"
    and "\<And>q x. queue \<noteq> [] \<Longrightarrow> walk G s q x \<Longrightarrow> length q < length (hd queue) \<Longrightarrow>
           closed_v G (insert s (set visited)) x"
    and "\<And>q x. queue \<noteq> [] \<Longrightarrow> walk G s q x \<Longrightarrow> length q \<le> length (hd queue) \<Longrightarrow>
           x \<in> insert s (set visited)"
    and "closed_v G (insert s (set visited)) s \<or> [s] \<in> set queue"
    and "d \<in> insert s (set visited) \<Longrightarrow> \<exists>r \<in> set queue. last r = d"
    and "insert s (set visited) \<subseteq> vertices G"
  shows "bfs_inv G s d queue visited"
  unfolding bfs_inv_def Let_def
proof (intro conjI ballI impI allI)
  fix q x assume "queue \<noteq> []" "walk G s q x \<and> length q < length (hd queue)"
  then show "closed_v G (insert s (set visited)) x" using assms(6) by blast
next
  fix q x assume "queue \<noteq> []" "walk G s q x \<and> length q \<le> length (hd queue)"
  then show "x \<in> insert s (set visited)" using assms(7) by blast
qed (use assms in simp_all)

text \<open>Every neighbour is a vertex: an invariant of the graphs that \<open>add_vertex\<close> and
  \<open>add_edge\<close> build.\<close>

definition closed :: "'v digraph \<Rightarrow> bool" where
  "closed G = (\<forall>v w. (v, w) \<in> edges G \<longrightarrow> w \<in> vertices G)"

lemma lockstep_closed:
  assumes "lockstep G"
  shows "closed G"
  unfolding closed_def
proof (intro allI impI)
  fix v w assume "(v, w) \<in> edges G"
  then have "\<exists>ns. map_of (tosets G) v = Some ns \<and> w \<in> set ns" by (simp add: mem_edges)
  with assms have "\<exists>ms. map_of (fromsets G) w = Some ms \<and> v \<in> set ms"
    unfolding lockstep_def by blast
  then have "w \<in> dom (map_of (fromsets G))" by blast
  with assms show "w \<in> vertices G" unfolding lockstep_def vertices_dom by simp
qed

lemma bfs_inv_step:
  assumes inv: "bfs_inv G s d (p # queue') visited" and nd: "last p \<noteq> d"
    and adj: "adj_to G (last p) = Inr ns" and cl: "closed G"
    and f: "fold (visit p) ns (queue', visited) = (q2, vis2)"
  shows "bfs_inv G s d q2 vis2"
proof -
  let ?D = "insert s (set visited)" and ?D2 = "insert s (set vis2)"
  let ?L = "length p"
  from fold_visit [of p ns queue' visited] f obtain new where
    q2: "q2 = queue' @ map (\<lambda>a. p @ [a]) new" and vis2: "vis2 = visited @ new"
    and new: "set new = set ns - set visited" by auto
  have DD: "?D \<subseteq> ?D2" unfolding vis2 by auto
  have D2: "?D2 = ?D \<union> set new" unfolding vis2 by auto
  note i = bfs_invD [OF inv]
  have J1: "\<And>r. r \<in> set (p # queue') \<Longrightarrow> walk G s r (last r) \<and> last r \<in> ?D" by (rule i(1))
  have J2a: "sorted (map length (p # queue'))" by (rule i(2))
  have J2b: "\<And>r. r \<in> set (p # queue') \<Longrightarrow> length r \<le> ?L + 1" using i(3) by simp
  have J3: "\<And>x. x \<in> ?D \<Longrightarrow> closed_v G ?D x \<or> (\<exists>r \<in> set (p # queue'). last r = x)" by (rule i(4))
  have J4: "\<And>r. r \<in> set (p # queue') \<Longrightarrow> last r \<noteq> s \<or> r = [s] \<Longrightarrow> shortest G s r" by (rule i(5))
  have J6: "\<And>q x. walk G s q x \<Longrightarrow> length q < ?L \<Longrightarrow> closed_v G ?D x" using i(6) by simp
  have J7: "\<And>q x. walk G s q x \<Longrightarrow> length q \<le> ?L \<Longrightarrow> x \<in> ?D" using i(7) by simp
  have J8: "closed_v G ?D s \<or> [s] \<in> set (p # queue')" by (rule i(8))
  have J10: "d \<in> ?D \<Longrightarrow> \<exists>r \<in> set (p # queue'). last r = d" by (rule i(9))
  have J11: "?D \<subseteq> vertices G" by (rule i(10))
  have wp: "walk G s p (last p)" using J1 [of p] by simp
  have Lpos: "1 \<le> ?L" using walk_length_pos [OF wp] .
  have ge: "\<And>r. r \<in> set queue' \<Longrightarrow> ?L \<le> length r" using J2a by auto
  have nbr: "\<And>y. ((last p, y) \<in> edges G) = (y \<in> set ns)" using adj_to_set [OF adj] .
  have cv: "closed_v G ?D2 (last p)"
    unfolding closed_v_def nbr D2 new by blast
  have mem: "\<And>r. (r \<in> set q2) = (r \<in> set queue' \<or> (\<exists>a \<in> set new. r = p @ [a]))"
    unfolding q2 by auto
  have newlen: "\<And>r. r \<in> set q2 \<Longrightarrow> ?L \<le> length r \<and> length r \<le> ?L + 1"
    using ge J2b unfolding mem by auto
  \<comment> \<open>the paths\<close>
  have N1: "walk G s r (last r) \<and> last r \<in> ?D2" if "r \<in> set q2" for r
  proof (cases "r \<in> set queue'")
    case True
    with J1 [of r] DD show ?thesis by auto
  next
    case False
    with that mem obtain a where a: "a \<in> set new" "r = p @ [a]" by blast
    then have "(last p, a) \<in> edges G" using new nbr by simp
    from walk_snoc [OF wp this] a D2 show ?thesis by simp
  qed
  \<comment> \<open>the order of the queue\<close>
  have N2a: "sorted (map length q2)"
  proof -
    have "sorted (map length queue')" using J2a by simp
    moreover have "map length (map (\<lambda>a. p @ [a]) new) = replicate (length new) (?L + 1)"
      by (simp add: map_replicate_const comp_def)
    moreover have "sorted (replicate (length new) (?L + 1))" by (simp add: sorted_replicate)
    moreover have "\<forall>x \<in> set (map length queue'). \<forall>y \<in> set (replicate (length new) (?L + 1)). x \<le> y"
      using J2b by auto
    ultimately show ?thesis unfolding q2 by (simp add: sorted_append)
  qed
  have N2b: "length r \<le> length (hd q2) + 1" if "r \<in> set q2" for r
  proof -
    from that have "q2 \<noteq> []" by auto
    then have "hd q2 \<in> set q2" by simp
    from newlen [OF this] newlen [OF that] show ?thesis by simp
  qed
  \<comment> \<open>discovered vertices are pending or closed\<close>
  have N3: "closed_v G ?D2 x \<or> (\<exists>r \<in> set q2. last r = x)" if "x \<in> ?D2" for x
  proof (cases "x \<in> set new")
    case True
    then have "p @ [x] \<in> set q2" using mem by blast
    then show ?thesis by force
  next
    case False
    with that D2 have "x \<in> ?D" by blast
    from J3 [OF this] show ?thesis
    proof
      assume "closed_v G ?D x"
      then show ?thesis using DD by (blast intro: closed_v_mono)
    next
      assume "\<exists>r \<in> set (p # queue'). last r = x"
      then obtain r where r: "r \<in> set (p # queue')" "last r = x" by blast
      show ?thesis
      proof (cases "r = p")
        case True
        with r cv show ?thesis by simp
      next
        case False
        with r have "r \<in> set q2" using mem by simp
        with r show ?thesis by blast
      qed
    qed
  qed
  \<comment> \<open>new paths are shortest\<close>
  have N4: "shortest G s r" if r: "r \<in> set q2" and g: "last r \<noteq> s \<or> r = [s]" for r
  proof (cases "r \<in> set queue'")
    case True
    with J4 [of r] g show ?thesis by simp
  next
    case False
    with r mem obtain a where a: "a \<in> set new" "r = p @ [a]" by blast
    have "p \<noteq> []" using wp by (simp add: walk_def)
    with g a have as: "a \<noteq> s" by simp
    from a new have av: "a \<notin> set visited" by simp
    have "length r \<le> length q" if w: "walk G s q a" for q
    proof (rule ccontr)
      assume "\<not> length r \<le> length q"
      with a have lq: "length q \<le> ?L" by simp
      have "2 \<le> length q"
      proof (rule ccontr)
        assume "\<not> 2 \<le> length q"
        then have "length q \<le> 1" by simp
        from walk_length_1 [OF w this] as show False by simp
      qed
      note b = walk_butlast [OF w this]
      have "length (butlast q) < ?L" using b(3) lq \<open>2 \<le> length q\<close> by simp
      from J6 [OF b(1) this] b(2) have "a \<in> ?D" by (simp add: closed_v_def)
      with as av show False by simp
    qed
    then show ?thesis unfolding shortest_def using a by simp
  qed
  have N8: "closed_v G ?D2 s \<or> [s] \<in> set q2"
  proof -
    from J8 show ?thesis
    proof
      assume "closed_v G ?D s"
      then show ?thesis using DD by (blast intro: closed_v_mono)
    next
      assume "[s] \<in> set (p # queue')"
      then show ?thesis
      proof (cases "p = [s]")
        case True
        with cv show ?thesis by simp
      next
        case False
        with \<open>[s] \<in> set (p # queue')\<close> have "[s] \<in> set q2" using mem by simp
        then show ?thesis by simp
      qed
    qed
  qed
  have N10: "\<exists>r \<in> set q2. last r = d" if "d \<in> ?D2"
  proof (cases "d \<in> set new")
    case True
    then have "p @ [d] \<in> set q2" using mem by blast
    then show ?thesis by force
  next
    case False
    with that D2 have "d \<in> ?D" by blast
    from J10 [OF this] obtain r where r: "r \<in> set (p # queue')" "last r = d" by blast
    with nd have "r \<noteq> p" by auto
    with r have "r \<in> set q2" using mem by simp
    with r show ?thesis by blast
  qed
  have N11: "?D2 \<subseteq> vertices G"
  proof -
    have "y \<in> vertices G" if "y \<in> set new" for y
    proof -
      from that new have "(last p, y) \<in> edges G" using nbr by simp
      with cl show ?thesis unfolding closed_def by blast
    qed
    then show ?thesis using J11 unfolding D2 by blast
  qed
  \<comment> \<open>the levels\<close>
  have K: "closed_v G ?D2 x" if hd: "length (hd q2) = ?L + 1" "q2 \<noteq> []" and w: "walk G s q x" "length q \<le> ?L" for q x
  proof (cases "length q < ?L")
    case True
    from J6 [OF w(1) this] DD show ?thesis by (blast intro: closed_v_mono)
  next
    case False
    with w have lq: "length q = ?L" by simp
    have big: "\<And>r. r \<in> set q2 \<Longrightarrow> ?L + 1 \<le> length r"
    proof -
      fix r assume r: "r \<in> set q2"
      then obtain k where k: "k < length q2" "q2 ! k = r" by (auto simp: in_set_conv_nth)
      have "map length q2 ! 0 \<le> map length q2 ! k"
        using N2a k(1) by (intro sorted_nth_mono) simp_all
      then show "?L + 1 \<le> length r" using k hd by (simp add: hd_conv_nth)
    qed
    have "x \<in> ?D2" using J7 [OF w(1)] lq DD by auto
    from N3 [OF this] show ?thesis
    proof
      assume "\<exists>r \<in> set q2. last r = x"
      then obtain r where r: "r \<in> set q2" "last r = x" by blast
      show ?thesis
      proof (cases "x = s")
        case True
        from N8 show ?thesis
        proof
          assume "[s] \<in> set q2"
          from big [OF this] Lpos show ?thesis by simp
        qed (simp add: True)
      next
        case False
        with r have "shortest G s r" using N4 by blast
        then have "length r \<le> length q" using w(1) r(2) by (simp add: shortest_def)
        with big [OF r(1)] lq show ?thesis by simp
      qed
    qed
  qed
  have hdcases: "q2 \<noteq> [] \<Longrightarrow> length (hd q2) = ?L \<or> length (hd q2) = ?L + 1"
  proof -
    assume "q2 \<noteq> []"
    then have "hd q2 \<in> set q2" by simp
    from newlen [OF this] show ?thesis by linarith
  qed
  have N6: "closed_v G ?D2 x" if ne: "q2 \<noteq> []" and w: "walk G s q x" "length q < length (hd q2)" for q x
  proof -
    from hdcases [OF ne] show ?thesis
    proof
      assume "length (hd q2) = ?L"
      with w have "length q < ?L" by simp
      from J6 [OF w(1) this] DD show ?thesis by (blast intro: closed_v_mono)
    next
      assume h: "length (hd q2) = ?L + 1"
      with w have "length q \<le> ?L" by simp
      from K [OF h ne w(1) this] show ?thesis .
    qed
  qed
  have N7: "x \<in> ?D2" if ne: "q2 \<noteq> []" and w: "walk G s q x" "length q \<le> length (hd q2)" for q x
  proof (cases "length q \<le> ?L")
    case True
    from J7 [OF w(1) this] DD show ?thesis by blast
  next
    case False
    with hdcases [OF ne] w(2) have h: "length (hd q2) = ?L + 1" and lq: "length q = ?L + 1" by auto
    with Lpos have "2 \<le> length q" by simp
    note b = walk_butlast [OF w(1) this]
    have "length (butlast q) \<le> ?L" using b(3) lq by simp
    from K [OF h ne b(1) this] b(2) show ?thesis by (simp add: closed_v_def)
  qed
  show ?thesis
    by (rule bfs_invI) (fact N1 N2a N2b N3 N4 N6 N7 N8 N10 N11)+
qed

lemma bfs_loop_correct:
  assumes "bfs_inv G s d queue visited" "d \<noteq> s" "closed G"
  shows "(\<exists>p. fst (bfs_loop G d queue visited expanded) = Inr (Some p) \<and> walk G s p d \<and> shortest G s p) \<or>
         (fst (bfs_loop G d queue visited expanded) = Inr None \<and> (\<forall>q. \<not> walk G s q d))"
  using assms
proof (induction G d queue visited expanded rule: bfs_loop.induct)
  case (1 G d queue visited expanded)
  note ds = "1.prems"(2) and cl = "1.prems"(3)
  note i = bfs_invD [OF "1.prems"(1)]
  show ?case
  proof (cases queue)
    case Nil
    have cD: "\<forall>x \<in> insert s (set visited). closed_v G (insert s (set visited)) x"
      using i(4) Nil by simp
    have sD: "s \<in> insert s (set visited)" by simp
    have r: "\<And>q x. walk G s q x \<Longrightarrow> x \<in> insert s (set visited)"
      by (rule walk_in_closed [OF sD cD])
    have "d \<notin> insert s (set visited)" using i(9) Nil by auto
    with r have "\<forall>q. \<not> walk G s q d" by blast
    moreover have "fst (bfs_loop G d queue visited expanded) = Inr None"
      using Nil by (subst bfs_loop.simps) simp
    ultimately show ?thesis by blast
  next
    case (Cons p queue')
    then have pq: "p \<in> set queue" by simp
    from i(1) [OF pq] have wp: "walk G s p (last p)" and lp: "last p \<in> insert s (set visited)" by simp_all
    then have pne: "p \<noteq> []" by (simp add: walk_def)
    show ?thesis
    proof (cases "last p = d")
      case True
      have "fst (bfs_loop G d queue visited expanded) = Inr (Some p)"
        using Cons pne True by (subst bfs_loop.simps) simp
      moreover have "shortest G s p" using i(5) [OF pq] True ds by simp
      ultimately show ?thesis using wp True by blast
    next
      case False
      have "last p \<in> vertices G" by (rule subsetD [OF i(10) lp])
      from adj_to_total [OF this] obtain ns where ns: "adj_to G (last p) = Inr ns" ..
      obtain q2 vis2 where f: "fold (visit p) ns (queue', visited) = (q2, vis2)"
        by (cases "fold (visit p) ns (queue', visited)") auto
      have inv2: "bfs_inv G s d q2 vis2"
        using bfs_inv_step [OF "1.prems"(1) [unfolded Cons] False ns cl f] .
      have "bfs_loop G d queue visited expanded = bfs_loop G d q2 vis2 (expanded @ [last p])"
        using Cons pne False ns f by (subst bfs_loop.simps) (simp add: Let_def)
      moreover note "1.IH" [OF Cons pne refl False ns f [symmetric] inv2 ds cl]
      ultimately show ?thesis by simp
    qed
  qed
qed

lemma shortest_path_self:
  assumes "s \<in> vertices G"
  shows "shortest_path G s s = Inr (Some [s])"
  using assms by (simp add: shortest_path_def shortest_path_run_def bfs_loop.simps)

lemma shortest_path_search:
  assumes "closed G" "s \<in> vertices G" "d \<in> vertices G" "d \<noteq> s"
  shows "(\<exists>p. shortest_path G s d = Inr (Some p) \<and> walk G s p d \<and> shortest G s p) \<or>
         (shortest_path G s d = Inr None \<and> (\<forall>q. \<not> walk G s q d))"
proof -
  have "shortest_path G s d = fst (bfs_loop G d [[s]] [] [])"
    using assms(2,3) by (simp add: shortest_path_def shortest_path_run_def)
  with bfs_loop_correct [OF bfs_inv_init [OF assms(2,4)] assms(4,1), of "[]"]
  show ?thesis by simp
qed

text \<open>
  Claim C2. In a graph whose neighbours are all vertices (as in every graph built by
  \<open>add_vertex\<close> and \<open>add_edge\<close>): when source and destination are vertices and a path
  leads from the one to the other, \<open>shortest_path\<close> returns a sequence for which \<open>is_path\<close>
  returns True, that begins with the source, ends with the destination and is no longer
  than any path from the source to the destination; from a vertex to itself it returns
  the vertex alone; and when an end point is no vertex or there is no path, it returns
  None. It raises nothing.
\<close>

theorem shortest_path_correct:
  assumes "closed G"
  shows "(source \<in> vertices G \<and> dest \<in> vertices G \<and>
          (\<exists>q. valid_path G q \<and> hd q = source \<and> last q = dest) \<longrightarrow>
            (\<exists>p. shortest_path G source dest = Inr (Some p) \<and> is_path G p = Inr True \<and>
                 hd p = source \<and> last p = dest \<and>
                 (\<forall>q. valid_path G q \<and> hd q = source \<and> last q = dest \<longrightarrow> length p \<le> length q))) \<and>
         (source \<in> vertices G \<longrightarrow> shortest_path G source source = Inr (Some [source])) \<and>
         (source \<notin> vertices G \<or> dest \<notin> vertices G \<or>
          \<not> (\<exists>q. valid_path G q \<and> hd q = source \<and> last q = dest) \<longrightarrow>
            shortest_path G source dest = Inr None)"
proof (intro conjI impI)
  assume a: "source \<in> vertices G \<and> dest \<in> vertices G \<and>
          (\<exists>q. valid_path G q \<and> hd q = source \<and> last q = dest)"
  then have sv: "source \<in> vertices G" and dv: "dest \<in> vertices G" by simp_all
  note wv = walk_valid_path [OF sv]
  from a obtain q0 where q0: "walk G source q0 dest" unfolding wv by blast
  show "\<exists>p. shortest_path G source dest = Inr (Some p) \<and> is_path G p = Inr True \<and>
                 hd p = source \<and> last p = dest \<and>
                 (\<forall>q. valid_path G q \<and> hd q = source \<and> last q = dest \<longrightarrow> length p \<le> length q)"
  proof (cases "dest = source")
    case True
    have "valid_path G [source]" using sv by (simp add: valid_path_def)
    moreover have "length [source] \<le> length q" if "valid_path G q" for q
      using that by (cases q) (simp_all add: valid_path_def)
    ultimately show ?thesis
      using shortest_path_self [OF sv] True by (auto simp: is_path_True)
  next
    case False
    from shortest_path_search [OF assms sv dv False] q0
    obtain p where p: "shortest_path G source dest = Inr (Some p)" "walk G source p dest"
      "shortest G source p" by blast
    from p(2) have v: "valid_path G p" "hd p = source" "last p = dest" unfolding wv by simp_all
    have "length p \<le> length q" if "valid_path G q \<and> hd q = source \<and> last q = dest" for q
    proof -
      from that have "walk G source q (last p)" unfolding wv v(3) .
      with p(3) show ?thesis unfolding shortest_def by blast
    qed
    with p(1) v show ?thesis by (simp add: is_path_True)
  qed
next
  assume "source \<in> vertices G"
  then show "shortest_path G source source = Inr (Some [source])" by (rule shortest_path_self)
next
  assume a: "source \<notin> vertices G \<or> dest \<notin> vertices G \<or>
          \<not> (\<exists>q. valid_path G q \<and> hd q = source \<and> last q = dest)"
  show "shortest_path G source dest = Inr None"
  proof (cases "source \<in> vertices G \<and> dest \<in> vertices G")
    case False
    then show ?thesis by (auto simp: shortest_path_def shortest_path_run_def)
  next
    case True
    then have sv: "source \<in> vertices G" and dv: "dest \<in> vertices G" by simp_all
    note wv = walk_valid_path [OF sv]
    from a True have n: "\<And>q. \<not> walk G source q dest" unfolding wv by blast
    have "dest \<noteq> source"
    proof
      assume "dest = source"
      with n [of "[source]"] show False by (simp add: walk_single)
    qed
    from shortest_path_search [OF assms sv dv this] n show ?thesis by blast
  qed
qed

text \<open>The graph \<open>Digraph([(1,2), (2,3), (3,4), (4,5), (1,6), (3,6), (6,7)])\<close> of the
  doctest of \<open>shortest_path\<close>.\<close>

definition G_sp :: "int digraph" where
  "G_sp = \<lparr>tosets = [(1, [6, 2]), (2, [3]), (3, [6, 4]), (4, [5]), (5, []), (6, [7]), (7, [])],
           fromsets = [(1, []), (2, [1]), (3, [2]), (4, [3]), (5, [4]), (6, [3, 1]), (7, [6])]\<rparr>"

lemma G_sp_build: "Digraph [(1, 2), (2, 3), (3, 4), (4, 5), (1, 6), (3, 6), (6, 7::int)] = Inr G_sp"
  by (simp add: Digraph_def G_sp_def add_edge_def add_vertex_def empty_digraph_def)

lemma G_sp_closed: "closed G_sp"
proof -
  from lockstep_build [OF lockstep_empty, of "map AddEdge [(1, 2), (2, 3), (3, 4), (4, 5), (1, 6), (3, 6), (6, 7::int)]"]
  have "lockstep G_sp" using G_sp_build by (simp add: Digraph_def)
  then show ?thesis by (rule lockstep_closed)
qed

theorem shortest_path_correct_witness:
  "closed G_sp \<and> shortest_path G_sp 1 7 = Inr (Some [1, 6, 7]) \<and> is_path G_sp [1, 6, 7] = Inr True \<and>
   shortest_path G_sp 1 1 = Inr (Some [1]) \<and> shortest_path G_sp 0 7 = Inr None \<and>
   shortest_path G_sp 7 1 = Inr None"
proof -
  have a: "shortest_path G_sp 1 7 = Inr (Some [1, 6, 7])" by code_simp
  have b: "shortest_path G_sp 7 1 = Inr None" by code_simp
  have v: "(1::int) \<in> vertices G_sp" "(7::int) \<in> vertices G_sp" "(0::int) \<notin> vertices G_sp"
    by (simp_all add: vertices_def G_sp_def)
  note t = shortest_path_correct [OF G_sp_closed]
  have "valid_path G_sp [1, 6, 7]" using t [of 1 7] a by (auto simp: is_path_True)
  then have c: "is_path G_sp [1, 6, 7] = Inr True" by (simp add: is_path_True)
  from t [of 1 1] v have d: "shortest_path G_sp 1 1 = Inr (Some [1])" by blast
  from t [of 0 7] v have e: "shortest_path G_sp 0 7 = Inr None" by blast
  show ?thesis using G_sp_closed a b c d e by simp
qed

section \<open>Correctness of the least-cost search\<close>

text \<open>The total cost of a path: the sum of the cost function over its consecutive pairs.\<close>

fun path_cost :: "('v \<times> 'v \<Rightarrow> real) \<Rightarrow> 'v list \<Rightarrow> real" where
  "path_cost c [] = 0"
| "path_cost c [x] = 0"
| "path_cost c (x # y # xs) = c (x, y) + path_cost c (y # xs)"

lemma path_cost_snoc: "q \<noteq> [] \<Longrightarrow> path_cost c (q @ [y]) = path_cost c q + c (last q, y)"
  by (induction c q rule: path_cost.induct) auto

lemma path_cost_append:
  "q \<noteq> [] \<Longrightarrow> r \<noteq> [] \<Longrightarrow>
   path_cost c (q @ r) = path_cost c q + c (last q, hd r) + path_cost c r"
proof (induction c q rule: path_cost.induct)
  case (2 c x)
  then show ?case by (cases r) auto
qed auto

text \<open>The cost function is not negative on the edges of the graph.\<close>

definition nonneg :: "'v digraph \<Rightarrow> ('v \<times> 'v \<Rightarrow> real) \<Rightarrow> bool" where
  "nonneg G c = (\<forall>v w. (v, w) \<in> edges G \<longrightarrow> 0 \<le> c (v, w))"

lemma path_cost_nonneg:
  "nonneg G c \<Longrightarrow> successively (\<lambda>v w. (v, w) \<in> edges G) q \<Longrightarrow> 0 \<le> path_cost c q"
proof (induction c q rule: path_cost.induct)
  case (3 c x y xs)
  then have e: "(x, y) \<in> edges G" and "successively (\<lambda>v w. (v, w) \<in> edges G) (y # xs)" by simp_all
  with 3 have "0 \<le> path_cost c (y # xs)" by simp
  moreover have "0 \<le> c (x, y)" using "3.prems"(1) e unfolding nonneg_def by blast
  ultimately show ?case by simp
qed simp_all

lemma walk_cost_nonneg: "nonneg G c \<Longrightarrow> walk G s q x \<Longrightarrow> 0 \<le> path_cost c q"
  by (simp add: walk_def path_cost_nonneg)

text \<open>A walk that leaves a set \<open>V\<close> has a first edge that leaves it, and costs at least as
  much as its part up to that edge.\<close>

lemma walk_leaves:
  assumes nn: "nonneg G c" and w: "walk G s q x" and s: "s \<in> V" and x: "x \<notin> V"
  shows "\<exists>q1 u y. walk G s q1 u \<and> set q1 \<subseteq> V \<and> (u, y) \<in> edges G \<and> y \<notin> V \<and>
           path_cost c q1 + c (u, y) \<le> path_cost c q"
  using w x
proof (induction "length q" arbitrary: q x rule: less_induct)
  case less
  note wq = less.prems(1) and xV = less.prems(2)
  have "q \<noteq> [s]"
  proof
    assume "q = [s]"
    then have "x = s" using wq by (simp add: walk_def)
    with xV s show False by simp
  qed
  then have l2: "2 \<le> length q" using walk_length_1 [OF wq] by (cases "length q \<le> 1") auto
  note b = walk_butlast [OF wq l2]
  let ?q = "butlast q"
  have qne: "?q \<noteq> []" using b(1) by (simp add: walk_def)
  have qq: "q = ?q @ [x]" using wq by (metis append_butlast_last_id walk_def)
  have pc: "path_cost c q = path_cost c ?q + c (last ?q, x)"
    using path_cost_snoc [OF qne, of c x] qq by simp
  have ce: "0 \<le> c (last ?q, x)" using nn b(2) unfolding nonneg_def by blast
  show ?case
  proof (cases "set ?q \<subseteq> V")
    case True
    have "path_cost c ?q + c (last ?q, x) \<le> path_cost c q" using pc by simp
    with b(1,2) True xV show ?thesis by blast
  next
    case False
    then obtain z where z: "z \<in> set ?q" "z \<notin> V" by blast
    then obtain k where k: "k < length ?q" "?q ! k = z" by (auto simp: in_set_conv_nth)
    let ?r = "take (Suc k) ?q"
    have rne: "?r \<noteq> []" using qne by simp
    have lr: "last ?r = z" using k by (simp add: take_Suc_conv_app_nth)
    have "successively (\<lambda>v w. (v, w) \<in> edges G) (?r @ drop (Suc k) ?q)"
      using b(1) by (simp add: walk_def)
    then have sr: "successively (\<lambda>v w. (v, w) \<in> edges G) ?r"
      and sd: "successively (\<lambda>v w. (v, w) \<in> edges G) (drop (Suc k) ?q)"
      and mid: "drop (Suc k) ?q = [] \<or> (last ?r, hd (drop (Suc k) ?q)) \<in> edges G"
      using rne unfolding successively_append_iff by blast+
    have "hd ?r = hd ?q" using qne by (cases ?q) simp_all
    then have "hd ?r = s" using b(1) by (simp add: walk_def)
    with rne lr sr have wr: "walk G s ?r z" by (simp add: walk_def)
    have "length ?r < length q" using k b(3) by simp
    from less.hyps [OF this wr z(2)] obtain q1 u y where q1:
      "walk G s q1 u" "set q1 \<subseteq> V" "(u, y) \<in> edges G" "y \<notin> V"
      "path_cost c q1 + c (u, y) \<le> path_cost c ?r" by blast
    have "path_cost c ?r \<le> path_cost c ?q"
    proof (cases "drop (Suc k) ?q = []")
      case True
      then have "?r = ?q" by simp
      then show ?thesis by simp
    next
      case dne: False
      have "path_cost c ?q = path_cost c (?r @ drop (Suc k) ?q)" by simp
      also have "\<dots> = path_cost c ?r + c (last ?r, hd (drop (Suc k) ?q)) + path_cost c (drop (Suc k) ?q)"
        using rne dne by (rule path_cost_append)
      finally have "path_cost c ?q =
         path_cost c ?r + c (last ?r, hd (drop (Suc k) ?q)) + path_cost c (drop (Suc k) ?q)" .
      moreover have "0 \<le> c (last ?r, hd (drop (Suc k) ?q))" using mid dne nn unfolding nonneg_def by blast
      moreover have "0 \<le> path_cost c (drop (Suc k) ?q)" using nn sd by (rule path_cost_nonneg)
      ultimately show ?thesis by simp
    qed
    with ce pc q1(5) have "path_cost c q1 + c (u, y) \<le> path_cost c q" by simp
    with q1 show ?thesis by blast
  qed
qed

text \<open>What one round of \<open>for n in G.adj_to(cur)\<close> does to \<open>todo\<close> and \<open>parent\<close>.\<close>

definition improves :: "('v \<times> 'v \<Rightarrow> real) \<Rightarrow> 'v \<Rightarrow> real \<Rightarrow> real option \<Rightarrow> 'v \<Rightarrow> bool" where
  "improves c cur tc old n = (case old of None \<Rightarrow> True | Some t \<Rightarrow> tc + c (cur, n) < t)"

lemma relax_step:
  assumes "relax c V cur tc n (todo, parent, calls) = (todo1, parent1, calls1)"
    and "distinct (map fst todo)"
  shows "distinct (map fst todo1)"
    and "map_of todo1 = (if n \<in> V \<or> \<not> improves c cur tc (map_of todo n) n then map_of todo
                         else (map_of todo)(n \<mapsto> tc + c (cur, n)))"
    and "parent1 = (if n \<in> V \<or> \<not> improves c cur tc (map_of todo n) n then parent
                    else parent(n \<mapsto> cur))"
proof -
  show "distinct (map fst todo1)"
    using assms by (auto simp: relax_def distinct_update split: if_splits option.splits)
  show "map_of todo1 = (if n \<in> V \<or> \<not> improves c cur tc (map_of todo n) n then map_of todo
                         else (map_of todo)(n \<mapsto> tc + c (cur, n)))"
    using assms(1) by (auto simp: relax_def improves_def update_conv' split: if_splits option.splits)
  show "parent1 = (if n \<in> V \<or> \<not> improves c cur tc (map_of todo n) n then parent
                    else parent(n \<mapsto> cur))"
    using assms(1) by (auto simp: relax_def improves_def split: if_splits option.splits)
qed

lemma relax_fold_aux:
  "fold (relax c V cur tc) ns (todo, parent, calls) = (todo', parent', calls') \<Longrightarrow>
   distinct (map fst todo) \<Longrightarrow>
   distinct (map fst todo') \<and>
   (\<forall>v. map_of todo' v =
           (if v \<in> set ns \<and> v \<notin> V \<and> improves c cur tc (map_of todo v) v
            then Some (tc + c (cur, v)) else map_of todo v)) \<and>
   (\<forall>v. parent' v =
           (if v \<in> set ns \<and> v \<notin> V \<and> improves c cur tc (map_of todo v) v
            then Some cur else parent v))"
proof (induction ns arbitrary: todo parent calls)
  case Nil
  then show ?case by simp
next
  case (Cons n ns)
  obtain t1 p1 k1 where r: "relax c V cur tc n (todo, parent, calls) = (t1, p1, k1)"
    using prod_cases3 by blast
  note s = relax_step [OF r Cons.prems(2)]
  have f: "fold (relax c V cur tc) ns (t1, p1, k1) = (todo', parent', calls')"
    using Cons.prems(1) r by simp
  note ih = Cons.IH [OF f s(1)]
  note m = s(2) and pp = s(3)
  have a: "map_of todo' v =
           (if v \<in> set (n # ns) \<and> v \<notin> V \<and> improves c cur tc (map_of todo v) v
            then Some (tc + c (cur, v)) else map_of todo v)" for v
  proof (cases "v = n")
    case False
    then have "map_of t1 v = map_of todo v" unfolding m by simp
    with ih False show ?thesis by simp
  next
    case True
    show ?thesis
    proof (cases "n \<in> V \<or> \<not> improves c cur tc (map_of todo n) n")
      case T2: True
      then have "map_of t1 = map_of todo" unfolding m by simp
      with ih True T2 show ?thesis by auto
    next
      case False
      then have e: "map_of t1 n = Some (tc + c (cur, n))" unfolding m by simp
      then have "\<not> improves c cur tc (map_of t1 n) n" by (simp add: improves_def)
      with ih True False e show ?thesis by simp
    qed
  qed
  have b: "parent' v =
           (if v \<in> set (n # ns) \<and> v \<notin> V \<and> improves c cur tc (map_of todo v) v
            then Some cur else parent v)" for v
  proof (cases "v = n")
    case False
    then have "map_of t1 v = map_of todo v" "p1 v = parent v" unfolding m pp by simp_all
    with ih False show ?thesis by simp
  next
    case True
    show ?thesis
    proof (cases "n \<in> V \<or> \<not> improves c cur tc (map_of todo n) n")
      case T2: True
      then have "map_of t1 = map_of todo" "p1 = parent" unfolding m pp by simp_all
      with ih True T2 show ?thesis by auto
    next
      case False
      then have e: "map_of t1 n = Some (tc + c (cur, n))" "p1 n = Some cur" unfolding m pp by simp_all
      then have "\<not> improves c cur tc (map_of t1 n) n" by (simp add: improves_def)
      with ih True False e show ?thesis by simp
    qed
  qed
  from ih a b show ?case by blast
qed

lemma relax_fold:
  assumes "fold (relax c V cur tc) ns (todo, parent, calls) = (todo', parent', calls')"
    and "distinct (map fst todo)"
  shows "distinct (map fst todo')"
    and "\<And>v. map_of todo' v =
           (if v \<in> set ns \<and> v \<notin> V \<and> improves c cur tc (map_of todo v) v
            then Some (tc + c (cur, v)) else map_of todo v)"
    and "\<And>v. parent' v =
           (if v \<in> set ns \<and> v \<notin> V \<and> improves c cur tc (map_of todo v) v
            then Some cur else parent v)"
  using relax_fold_aux [OF assms] by blast+

lemma min_item_le:
  "\<forall>y \<in> set (x # xs). snd (min_item x xs) \<le> snd y"
proof -
  have "\<forall>y \<in> insert b (set xs). snd (fold (\<lambda>y best. if snd y < snd best then y else best) xs b) \<le> snd y"
    for b :: "'a \<times> real"
  proof (induction xs arbitrary: b)
    case Nil
    show ?case by simp
  next
    case (Cons a xs)
    let ?b = "if snd a < snd b then a else b"
    have le: "snd ?b \<le> snd a" "snd ?b \<le> snd b" by auto
    have ih: "\<forall>y \<in> insert ?b (set xs). snd (fold (\<lambda>y best. if snd y < snd best then y else best) xs ?b) \<le> snd y"
      by (rule Cons.IH)
    then have m: "snd (fold (\<lambda>y best. if snd y < snd best then y else best) xs ?b) \<le> snd ?b" by blast
    have e: "fold (\<lambda>y best. if snd y < snd best then y else best) (a # xs) b =
        fold (\<lambda>y best. if snd y < snd best then y else best) xs ?b" by simp
    show ?case
    proof
      fix y assume "y \<in> insert b (set (a # xs))"
      then consider "y = b" | "y = a" | "y \<in> set xs" by auto
      then show "snd (fold (\<lambda>y best. if snd y < snd best then y else best) (a # xs) b) \<le> snd y"
      proof cases
        case 1
        from m le(2) show ?thesis unfolding e 1 by (rule order_trans)
      next
        case 2
        from m le(1) show ?thesis unfolding e 2 by (rule order_trans)
      next
        case 3
        with ih show ?thesis unfolding e by blast
      qed
    qed
  qed
  then show ?thesis by (simp add: min_item_def)
qed

lemma min_item_map_of:
  assumes "distinct (map fst (x # xs))" "min_item x xs = (cur, tc)"
  shows "map_of (x # xs) cur = Some tc" and "\<And>v t. map_of (x # xs) v = Some t \<Longrightarrow> tc \<le> t"
proof -
  have "(cur, tc) \<in> set (x # xs)" using min_item_in [of x xs] assms(2) by simp
  with assms(1) show "map_of (x # xs) cur = Some tc" by (rule map_of_is_SomeI)
  fix v t assume "map_of (x # xs) v = Some t"
  then have "(v, t) \<in> set (x # xs)" by (rule map_of_SomeD)
  with min_item_le [of x xs] assms(2) show "tc \<le> t" by fastforce
qed

text \<open>The loop \<open>while parent[vertex_iterator] != start\<close> on a chain of parents.\<close>

lemma walk_back_chain:
  "successively (\<lambda>u w. parent w = Some u) ([s] @ m @ [x]) \<Longrightarrow> s \<notin> set m \<Longrightarrow>
   walk_back parent s x path = Some (Inr (path @ rev m))"
proof (induction m arbitrary: x path rule: rev_induct)
  case Nil
  then have "parent x = Some s" by simp
  then show ?case by (subst walk_back.simps) simp
next
  case (snoc u m)
  from snoc.prems(1) have "successively (\<lambda>u w. parent w = Some u) (([s] @ m @ [u]) @ [x])" by simp
  then have a: "successively (\<lambda>u w. parent w = Some u) ([s] @ m @ [u])" and b: "parent x = Some u"
    unfolding successively_append_iff [of _ "[s] @ m @ [u]" "[x]"] by simp_all
  have us: "u \<noteq> s" using snoc.prems(2) by auto
  have sm: "s \<notin> set m" using snoc.prems(2) by simp
  have "walk_back parent s x path = walk_back parent s u (path @ [u])"
    using b us by (subst walk_back.simps) simp
  also have "\<dots> = Some (Inr ((path @ [u]) @ rev m))" using snoc.IH [OF a sm] .
  finally show ?case by simp
qed

text \<open>The chain of parents from \<open>s\<close> to the last vertex of \<open>q\<close>.\<close>

definition pchain :: "('v \<rightharpoonup> 'v) \<Rightarrow> 'v \<Rightarrow> 'v list \<Rightarrow> bool" where
  "pchain parent s q = (successively (\<lambda>u w. parent w = Some u) q \<and> s \<notin> set (tl q))"

text \<open>The invariant of the \<open>while todo and (dest not in visited)\<close> loop, for a search from
  \<open>s\<close>; \<open>D\<close> gives the cost at which each visited vertex was taken from \<open>todo\<close>.\<close>

definition dj_inv ::
  "'v digraph \<Rightarrow> ('v \<times> 'v \<Rightarrow> real) \<Rightarrow> 'v \<Rightarrow> ('v \<Rightarrow> real) \<Rightarrow> 'v todo \<Rightarrow> 'v set \<Rightarrow> ('v \<rightharpoonup> 'v) \<Rightarrow> bool"
where
  "dj_inv G c s D todo visited parent =
     (distinct (map fst todo) \<and>
      (\<forall>v \<in> visited. map_of todo v = None) \<and>
      (\<forall>v \<in> visited. \<exists>q. walk G s q v \<and> path_cost c q = D v \<and> pchain parent s q \<and> set q \<subseteq> visited) \<and>
      (\<forall>v \<in> visited. \<forall>q. walk G s q v \<longrightarrow> D v \<le> path_cost c q) \<and>
      (\<forall>v t. map_of todo v = Some t \<longrightarrow>
         (v = s \<and> t = 0 \<and> visited = {}) \<or>
         (\<exists>u \<in> visited. parent v = Some u \<and> (u, v) \<in> edges G \<and> t = D u + c (u, v))) \<and>
      (\<forall>u \<in> visited. \<forall>v. (u, v) \<in> edges G \<longrightarrow>
         v \<in> visited \<or> (\<exists>t. map_of todo v = Some t \<and> t \<le> D u + c (u, v))) \<and>
      (visited = {} \<longrightarrow> todo = [(s, 0)]) \<and>
      (visited \<noteq> {} \<longrightarrow> s \<in> visited))"

lemma dj_invD:
  assumes "dj_inv G c s D todo visited parent"
  shows "distinct (map fst todo)"
    and "\<And>v. v \<in> visited \<Longrightarrow> map_of todo v = None"
    and "\<And>v. v \<in> visited \<Longrightarrow>
           \<exists>q. walk G s q v \<and> path_cost c q = D v \<and> pchain parent s q \<and> set q \<subseteq> visited"
    and "\<And>v q. v \<in> visited \<Longrightarrow> walk G s q v \<Longrightarrow> D v \<le> path_cost c q"
    and "\<And>v t. map_of todo v = Some t \<Longrightarrow>
           (v = s \<and> t = 0 \<and> visited = {}) \<or>
           (\<exists>u \<in> visited. parent v = Some u \<and> (u, v) \<in> edges G \<and> t = D u + c (u, v))"
    and "\<And>u v. u \<in> visited \<Longrightarrow> (u, v) \<in> edges G \<Longrightarrow>
           v \<in> visited \<or> (\<exists>t. map_of todo v = Some t \<and> t \<le> D u + c (u, v))"
    and "visited = {} \<Longrightarrow> todo = [(s, 0)]"
    and "visited \<noteq> {} \<Longrightarrow> s \<in> visited"
proof -
  note i = assms [unfolded dj_inv_def]
  note c1 = i [THEN conjunct1]
  note r1 = i [THEN conjunct2]
  note c2 = r1 [THEN conjunct1]
  note r2 = r1 [THEN conjunct2]
  note c3 = r2 [THEN conjunct1]
  note r3 = r2 [THEN conjunct2]
  note c4 = r3 [THEN conjunct1]
  note r4 = r3 [THEN conjunct2]
  note c5 = r4 [THEN conjunct1]
  note r5 = r4 [THEN conjunct2]
  note c6 = r5 [THEN conjunct1]
  note r6 = r5 [THEN conjunct2]
  note c7 = r6 [THEN conjunct1]
  note c8 = r6 [THEN conjunct2]
  show "distinct (map fst todo)" by (rule c1)
  show "\<And>v. v \<in> visited \<Longrightarrow> map_of todo v = None" using c2 by (rule bspec)
  show "\<And>v. v \<in> visited \<Longrightarrow>
           \<exists>q. walk G s q v \<and> path_cost c q = D v \<and> pchain parent s q \<and> set q \<subseteq> visited"
    using c3 by (rule bspec)
  show "\<And>v q. v \<in> visited \<Longrightarrow> walk G s q v \<Longrightarrow> D v \<le> path_cost c q"
    using c4 [THEN bspec, THEN spec, THEN mp] .
  show "\<And>v t. map_of todo v = Some t \<Longrightarrow>
           (v = s \<and> t = 0 \<and> visited = {}) \<or>
           (\<exists>u \<in> visited. parent v = Some u \<and> (u, v) \<in> edges G \<and> t = D u + c (u, v))"
    using c5 [THEN spec, THEN spec, THEN mp] .
  show "\<And>u v. u \<in> visited \<Longrightarrow> (u, v) \<in> edges G \<Longrightarrow>
           v \<in> visited \<or> (\<exists>t. map_of todo v = Some t \<and> t \<le> D u + c (u, v))"
    using c6 [THEN bspec, THEN spec, THEN mp] .
  show "visited = {} \<Longrightarrow> todo = [(s, 0)]" using c7 by (rule mp)
  show "visited \<noteq> {} \<Longrightarrow> s \<in> visited" using c8 by (rule mp)
qed

lemma dj_invI:
  assumes "distinct (map fst todo)"
    and "\<And>v. v \<in> visited \<Longrightarrow> map_of todo v = None"
    and "\<And>v. v \<in> visited \<Longrightarrow>
           \<exists>q. walk G s q v \<and> path_cost c q = D v \<and> pchain parent s q \<and> set q \<subseteq> visited"
    and "\<And>v q. v \<in> visited \<Longrightarrow> walk G s q v \<Longrightarrow> D v \<le> path_cost c q"
    and "\<And>v t. map_of todo v = Some t \<Longrightarrow>
           (v = s \<and> t = 0 \<and> visited = {}) \<or>
           (\<exists>u \<in> visited. parent v = Some u \<and> (u, v) \<in> edges G \<and> t = D u + c (u, v))"
    and "\<And>u v. u \<in> visited \<Longrightarrow> (u, v) \<in> edges G \<Longrightarrow>
           v \<in> visited \<or> (\<exists>t. map_of todo v = Some t \<and> t \<le> D u + c (u, v))"
    and "visited = {} \<Longrightarrow> todo = [(s, 0)]"
    and "visited \<noteq> {} \<Longrightarrow> s \<in> visited"
  shows "dj_inv G c s D todo visited parent"
  unfolding dj_inv_def
  by (intro conjI ballI impI allI) (fact assms | erule assms | (erule assms, assumption))+

lemma dj_inv_init: "dj_inv G c s D [(s, 0)] {} Map.empty"
  by (rule dj_invI) (simp_all split: if_splits)

lemma if_eq1: "P \<Longrightarrow> a = (if P then x else y) \<Longrightarrow> a = x"
  by simp

lemma if_eq2: "\<not> P \<Longrightarrow> a = (if P then x else y) \<Longrightarrow> a = y"
  by simp

lemma pchain_cong:
  assumes "pchain parent s q" "\<And>w. w \<in> set q \<Longrightarrow> parent' w = parent w"
  shows "pchain parent' s q"
proof -
  from assms(1) have a: "successively (\<lambda>u w. parent w = Some u) q" and t: "s \<notin> set (tl q)"
    by (simp_all add: pchain_def)
  from a have "successively (\<lambda>u w. parent' w = Some u) q"
    by (rule successively_mono) (simp add: assms(2))
  with t show ?thesis by (simp add: pchain_def)
qed

lemma pchain_snoc:
  assumes "pchain parent s q" "q \<noteq> []" "parent x = Some (last q)" "x \<noteq> s"
  shows "pchain parent s (q @ [x])"
  using assms by (auto simp: pchain_def successively_append_iff)

lemma dj_inv_step:
  assumes inv: "dj_inv G c s D (x # xs) visited parent"
    and mi: "min_item x xs = (cur, tc)"
    and adj: "adj_to G cur = Inr ns"
    and f: "fold (relax c (insert cur visited) cur tc) ns (AList.delete cur (x # xs), parent, calls) =
              (todo', parent', calls')"
    and nn: "nonneg G c"
  shows "dj_inv G c s (D(cur := tc)) todo' (insert cur visited) parent'"
proof -
  let ?todo = "x # xs" and ?V = "insert cur visited" and ?D = "D(cur := tc)"
  define T0 where "T0 = AList.delete cur (x # xs)"
  note i = dj_invD [OF inv]
  note mm = min_item_map_of [OF i(1) mi]
  have cv: "cur \<notin> visited" using i(2) [of cur] mm(1) by auto
  have T0: "\<And>v. map_of T0 v = (if v = cur then None else map_of ?todo v)"
    unfolding T0_def by (simp only: delete_conv' fun_upd_apply)
  have dT0: "distinct (map fst T0)" unfolding T0_def using i(1) by (rule distinct_delete)
  note rf = relax_fold [OF f [folded T0_def] dT0]
  have nbr: "\<And>y. ((cur, y) \<in> edges G) = (y \<in> set ns)" using adj_to_set [OF adj] .
  have Dold: "\<And>u. u \<in> visited \<Longrightarrow> ?D u = D u" using cv by auto
  have pold: "parent' w = parent w" if "w \<in> ?V" for w
  proof -
    from that have "\<not> (w \<in> set ns \<and> w \<notin> ?V \<and> improves c cur tc (map_of T0 w) w)" by blast
    then show ?thesis using rf(3) [of w] by (rule if_eq2)
  qed
  have cur_s: "visited = {} \<Longrightarrow> cur = s \<and> tc = 0"
  proof -
    assume "visited = {}"
    from i(7) [OF this] mm(1) show ?thesis by (simp split: if_splits)
  qed
  \<comment> \<open>the path to the vertex taken from \<open>todo\<close>\<close>
  have chain_cur: "\<exists>q. walk G s q cur \<and> path_cost c q = tc \<and> pchain parent s q \<and> set q \<subseteq> ?V"
  proof -
    from i(5) [OF mm(1)] show ?thesis
    proof
      assume "cur = s \<and> tc = 0 \<and> visited = {}"
      then have "walk G s [s] cur \<and> path_cost c [s] = tc \<and> pchain parent s [s] \<and> set [s] \<subseteq> ?V"
        by (simp add: walk_def pchain_def)
      then show ?thesis by blast
    next
      assume "\<exists>u \<in> visited. parent cur = Some u \<and> (u, cur) \<in> edges G \<and> tc = D u + c (u, cur)"
      then obtain u where u: "u \<in> visited" "parent cur = Some u" "(u, cur) \<in> edges G"
        "tc = D u + c (u, cur)" by blast
      from i(3) [OF u(1)] obtain q where q: "walk G s q u" "path_cost c q = D u"
        "pchain parent s q" "set q \<subseteq> visited" by blast
      have qne: "q \<noteq> []" and lq: "last q = u" using q(1) by (simp_all add: walk_def)
      have "s \<in> visited" using i(8) u(1) by blast
      with cv have cs: "cur \<noteq> s" by blast
      have "walk G s (q @ [cur]) cur" using q(1) u(3) by (rule walk_snoc)
      moreover have "path_cost c (q @ [cur]) = tc"
        using path_cost_snoc [OF qne, of c cur] q(2) lq u(4) by simp
      moreover have "pchain parent s (q @ [cur])"
        using q(3) qne _ cs by (rule pchain_snoc) (simp add: lq u(2))
      moreover have "set (q @ [cur]) \<subseteq> ?V" using q(4) by auto
      ultimately show ?thesis by blast
    qed
  qed
  \<comment> \<open>no walk to it is cheaper\<close>
  have least_cur: "tc \<le> path_cost c q" if w: "walk G s q cur" for q
  proof (cases "visited = {}")
    case True
    with cur_s have "tc = 0" by simp
    with walk_cost_nonneg [OF nn w] show ?thesis by simp
  next
    case False
    then have sv: "s \<in> visited" by (rule i(8))
    from walk_leaves [OF nn w sv cv] obtain q1 u y where q1:
      "walk G s q1 u" "set q1 \<subseteq> visited" "(u, y) \<in> edges G" "y \<notin> visited"
      "path_cost c q1 + c (u, y) \<le> path_cost c q" by blast
    have "u \<in> set q1" using q1(1) by (auto simp: walk_def)
    with q1(2) have uv: "u \<in> visited" by blast
    from i(6) [OF uv q1(3)] q1(4) obtain t where t: "map_of ?todo y = Some t" "t \<le> D u + c (u, y)"
      by blast
    have "tc \<le> t" using mm(2) [OF t(1)] .
    moreover have "D u \<le> path_cost c q1" using i(4) [OF uv q1(1)] .
    ultimately show ?thesis using t(2) q1(5) by simp
  qed
  \<comment> \<open>the parts of the invariant\<close>
  have N1: "distinct (map fst todo')" by (rule rf(1))
  have N2: "map_of todo' v = None" if "v \<in> ?V" for v
  proof -
    from that have "\<not> (v \<in> set ns \<and> v \<notin> ?V \<and> improves c cur tc (map_of T0 v) v)" by blast
    then have "map_of todo' v = map_of T0 v" using rf(2) [of v] by (rule if_eq2)
    also have "\<dots> = None" using that T0 [of v] i(2) [of v] by auto
    finally show ?thesis .
  qed
  have N3: "\<exists>q. walk G s q v \<and> path_cost c q = ?D v \<and> pchain parent' s q \<and> set q \<subseteq> ?V"
    if v: "v \<in> ?V" for v
  proof (cases "v = cur")
    case True
    from chain_cur obtain q where q: "walk G s q cur" "path_cost c q = tc" "pchain parent s q"
      "set q \<subseteq> ?V" by blast
    have "pchain parent' s q" using q(3) by (rule pchain_cong) (use q(4) pold in blast)
    with q True show ?thesis by auto
  next
    case False
    with v have vv: "v \<in> visited" by simp
    from i(3) [OF vv] obtain q where q: "walk G s q v" "path_cost c q = D v" "pchain parent s q"
      "set q \<subseteq> visited" by blast
    have "pchain parent' s q" using q(3) by (rule pchain_cong) (use q(4) pold in blast)
    with q False show ?thesis by auto
  qed
  have N4: "?D v \<le> path_cost c q" if "v \<in> ?V" "walk G s q v" for v q
  proof (cases "v = cur")
    case True
    with least_cur that(2) show ?thesis by simp
  next
    case False
    with that i(4) [of v q] show ?thesis by simp
  qed
  have N5: "(v = s \<and> t = 0 \<and> ?V = {}) \<or>
            (\<exists>u \<in> ?V. parent' v = Some u \<and> (u, v) \<in> edges G \<and> t = ?D u + c (u, v))"
    if t: "map_of todo' v = Some t" for v t
  proof (cases "v \<in> set ns \<and> v \<notin> ?V \<and> improves c cur tc (map_of T0 v) v")
    case True
    have c2: "map_of todo' v = Some (tc + c (cur, v))" using True rf(2) [of v] by (rule if_eq1)
    have c3: "parent' v = Some cur" using True rf(3) [of v] by (rule if_eq1)
    have "t = tc + c (cur, v)" "parent' v = Some cur" "(cur, v) \<in> edges G"
      using t c2 c3 nbr True by simp_all
    then show ?thesis by auto
  next
    case False
    have c2: "map_of todo' v = map_of T0 v" using False rf(2) [of v] by (rule if_eq2)
    have c3: "parent' v = parent v" using False rf(3) [of v] by (rule if_eq2)
    have a: "map_of T0 v = Some t" "parent' v = parent v" using t c2 c3 by simp_all
    then have vc: "v \<noteq> cur" and b: "map_of ?todo v = Some t" using T0 [of v] by (auto split: if_splits)
    from i(5) [OF b] show ?thesis
    proof
      assume "v = s \<and> t = 0 \<and> visited = {}"
      with cur_s vc show ?thesis by simp
    next
      assume "\<exists>u \<in> visited. parent v = Some u \<and> (u, v) \<in> edges G \<and> t = D u + c (u, v)"
      then obtain u where u: "u \<in> visited" "parent v = Some u" "(u, v) \<in> edges G"
        "t = D u + c (u, v)" by blast
      have "u \<in> ?V" "parent' v = Some u" "t = ?D u + c (u, v)"
        using u a(2) Dold [OF u(1)] by simp_all
      with u(3) show ?thesis by blast
    qed
  qed
  have N6: "v \<in> ?V \<or> (\<exists>t. map_of todo' v = Some t \<and> t \<le> ?D u + c (u, v))"
    if u: "u \<in> ?V" and e: "(u, v) \<in> edges G" for u v
  proof (cases "v \<in> ?V")
    case True
    then show ?thesis by simp
  next
    case False
    then have vc: "v \<noteq> cur" and vv: "v \<notin> visited" by simp_all
    show ?thesis
    proof (cases "u = cur")
      case True
      then have vn: "v \<in> set ns" using e nbr by simp
      show ?thesis
      proof (cases "improves c cur tc (map_of T0 v) v")
        case I: True
        with vn False have "v \<in> set ns \<and> v \<notin> ?V \<and> improves c cur tc (map_of T0 v) v" by blast
        then have "map_of todo' v = Some (tc + c (cur, v))" using rf(2) [of v] by (rule if_eq1)
        with True show ?thesis by simp
      next
        case I: False
        then obtain t0 where t0: "map_of T0 v = Some t0" "\<not> tc + c (cur, v) < t0"
          by (auto simp: improves_def split: option.splits)
        from I have "\<not> (v \<in> set ns \<and> v \<notin> ?V \<and> improves c cur tc (map_of T0 v) v)" by blast
        then have "map_of todo' v = map_of T0 v" using rf(2) [of v] by (rule if_eq2)
        with t0 True show ?thesis by simp
      qed
    next
      case uc: False
      with u have uv: "u \<in> visited" by simp
      from i(6) [OF uv e] vv obtain t where t: "map_of ?todo v = Some t" "t \<le> D u + c (u, v)"
        by blast
      then have t0: "map_of T0 v = Some t" using T0 [of v] vc by simp
      have "\<exists>t'. map_of todo' v = Some t' \<and> t' \<le> t"
      proof (cases "v \<in> set ns \<and> v \<notin> ?V \<and> improves c cur tc (map_of T0 v) v")
        case True
        then have "map_of todo' v = Some (tc + c (cur, v))" using rf(2) [of v] by (rule if_eq1)
        moreover have "tc + c (cur, v) < t" using True t0 by (simp add: improves_def)
        ultimately show ?thesis by simp
      next
        case False
        then have "map_of todo' v = map_of T0 v" using rf(2) [of v] by (rule if_eq2)
        with t0 show ?thesis by simp
      qed
      with t(2) Dold [OF uv] show ?thesis by auto
    qed
  qed
  have N7: "?V = {} \<Longrightarrow> todo' = [(s, 0)]" by simp
  have N8: "?V \<noteq> {} \<Longrightarrow> s \<in> ?V"
  proof (cases "visited = {}")
    case True
    with cur_s show ?thesis by simp
  next
    case False
    with i(8) show ?thesis by simp
  qed
  show ?thesis
    by (rule dj_invI) (fact N1 N2 N3 N4 N5 N6 N7 N8)+
qed

lemma dijkstra_loop_correct:
  assumes "\<exists>D. dj_inv G c s D todo visited parent" "nonneg G c" "closed G" "s \<in> vertices G"
  shows "\<exists>D' todo' visited' parent' calls'.
           dijkstra_loop G c d todo visited parent calls = (Inr (todo', visited', parent'), calls') \<and>
           dj_inv G c s D' todo' visited' parent' \<and> (todo' = [] \<or> d \<in> visited')"
  using assms
proof (induction G c d todo visited parent calls rule: dijkstra_loop.induct)
  case (1 G c d todo visited parent calls)
  from "1.prems"(1) obtain D where inv: "dj_inv G c s D todo visited parent" by blast
  note nn = "1.prems"(2) and cl = "1.prems"(3) and sv = "1.prems"(4)
  show ?case
  proof (cases todo)
    case Nil
    then have "dijkstra_loop G c d todo visited parent calls = (Inr (todo, visited, parent), calls)"
      by (subst dijkstra_loop.simps) simp
    with inv Nil show ?thesis by blast
  next
    case (Cons x xs)
    show ?thesis
    proof (cases "d \<in> visited")
      case True
      then have "dijkstra_loop G c d todo visited parent calls = (Inr (todo, visited, parent), calls)"
        using Cons by (subst dijkstra_loop.simps) simp
      with inv True show ?thesis by blast
    next
      case False
      obtain cur tc where mi: "min_item x xs = (cur, tc)" by (cases "min_item x xs") auto
      note i = dj_invD [OF inv [unfolded Cons]]
      note mm = min_item_map_of [OF i(1) mi]
      have "cur \<in> vertices G"
      proof -
        from i(5) [OF mm(1)] show ?thesis
        proof
          assume "cur = s \<and> tc = 0 \<and> visited = {}"
          with sv show ?thesis by simp
        next
          assume "\<exists>u \<in> visited. parent cur = Some u \<and> (u, cur) \<in> edges G \<and> tc = D u + c (u, cur)"
          then obtain u where "(u, cur) \<in> edges G" by blast
          with cl show ?thesis unfolding closed_def by blast
        qed
      qed
      from adj_to_total [OF this] obtain ns where ns: "adj_to G cur = Inr ns" ..
      obtain t2 p2 k2 where f: "fold (relax c (insert cur visited) cur tc) ns
          (AList.delete cur todo, parent, calls) = (t2, p2, k2)"
        using prod_cases3 by blast
      have inv2: "dj_inv G c s (D(cur := tc)) t2 (insert cur visited) p2"
        using dj_inv_step [OF inv [unfolded Cons] mi ns f [unfolded Cons] nn] .
      then have e: "\<exists>D. dj_inv G c s D t2 (insert cur visited) p2" by blast
      have "dijkstra_loop G c d todo visited parent calls =
          dijkstra_loop G c d t2 (insert cur visited) p2 k2"
        using Cons False mi ns f by (subst dijkstra_loop.simps) simp
      moreover note "1.IH" [OF Cons False mi [symmetric] ns f [symmetric] refl e nn cl sv]
      ultimately show ?thesis by simp
    qed
  qed
qed

lemma least_cost_path_search:
  assumes cl: "closed G" and nn: "nonneg G c" and sv: "s \<in> vertices G" and ds: "d \<noteq> s"
  shows "(\<exists>p. least_cost_path G s d c = Some (Inr p) \<and> walk G s p d \<and>
              (\<forall>q. walk G s q d \<longrightarrow> path_cost c p \<le> path_cost c q)) \<or>
         (least_cost_path G s d c = Some (Inr []) \<and> (\<forall>q. \<not> walk G s q d))"
proof -
  have "\<exists>D. dj_inv G c s D [(s, 0)] {} Map.empty"
    by (rule exI [of _ "\<lambda>v. 0"]) (rule dj_inv_init)
  from dijkstra_loop_correct [OF this nn cl sv, of d "[]"]
  obtain D todo visited parent calls where
    l: "dijkstra_loop G c d [(s, 0)] {} Map.empty [] = (Inr (todo, visited, parent), calls)"
    and inv: "dj_inv G c s D todo visited parent" and fin: "todo = [] \<or> d \<in> visited" by blast
  note i = dj_invD [OF inv]
  show ?thesis
  proof (cases "d \<in> visited")
    case True
    from i(3) [OF True] obtain q where q: "walk G s q d" "path_cost c q = D d"
      "pchain parent s q" "set q \<subseteq> visited" by blast
    have qne: "q \<noteq> []" and hq: "hd q = s" and lq: "last q = d" using q(1) by (simp_all add: walk_def)
    have "q \<noteq> [s]" using lq ds by auto
    then have "tl q \<noteq> []" using qne hq by (cases q) auto
    define m where "m = butlast (tl q)"
    have "tl q = m @ [d]"
      using \<open>tl q \<noteq> []\<close> lq qne unfolding m_def by (metis append_butlast_last_id last_tl)
    then have qq: "q = [s] @ m @ [d]" using qne hq by (cases q) auto
    have sm: "s \<notin> set m" using q(3) \<open>tl q = m @ [d]\<close> by (simp add: pchain_def)
    have "successively (\<lambda>u w. parent w = Some u) ([s] @ m @ [d])"
      using q(3) unfolding qq by (simp add: pchain_def)
    from walk_back_chain [OF this sm, of "[d]"]
    have wb: "walk_back parent s d [d] = Some (Inr ([d] @ rev m))" .
    have "least_cost_path G s d c = Some (Inr q)"
      using ds l True wb unfolding least_cost_path_def least_cost_path_run_def qq
      by simp
    moreover have "\<forall>q'. walk G s q' d \<longrightarrow> path_cost c q \<le> path_cost c q'"
      using i(4) [OF True] q(2) by simp
    ultimately show ?thesis using q(1) by blast
  next
    case False
    with fin have tn: "todo = []" by simp
    have vne: "visited \<noteq> {}"
    proof
      assume "visited = {}"
      from i(7) [OF this] tn show False by simp
    qed
    then have s_in: "s \<in> visited" by (rule i(8))
    have "\<forall>x \<in> visited. closed_v G visited x"
      unfolding closed_v_def using i(6) tn by fastforce
    from walk_in_closed [OF s_in this] False have n: "\<forall>q. \<not> walk G s q d" by blast
    have "least_cost_path G s d c = Some (Inr [])"
      using ds l False unfolding least_cost_path_def least_cost_path_run_def by simp
    with n show ?thesis by blast
  qed
qed

lemma least_cost_path_self:
  assumes cl: "closed G" and nn: "nonneg G c" and sv: "s \<in> vertices G"
  shows "least_cost_path G s s c = Some (Inr [s])"
proof -
  have "\<exists>D. dj_inv G c s D [(s, 0)] {} Map.empty"
    by (rule exI [of _ "\<lambda>v. 0"]) (rule dj_inv_init)
  from dijkstra_loop_correct [OF this nn cl sv, of s "[]"]
  obtain todo visited parent calls where
    "dijkstra_loop G c s [(s, 0)] {} Map.empty [] = (Inr (todo, visited, parent), calls)" by blast
  then show ?thesis using sv unfolding least_cost_path_def least_cost_path_run_def by simp
qed

end
